theory Spec2Isabelle
  imports Main
begin

section \<open>The module graph runtime of BESS (core/module.c) and its logger (core/log.c)\<close>

subsection \<open>Constants and pointers\<close>

text \<open>
  Pointers are natural numbers; a pointer that may be \<^verbatim>\<open>NULL\<close> is an \<open>option\<close>.
  Objects live in explicit stores (partial maps from pointers), so that aliasing
  between a gate array slot and the \<^verbatim>\<open>out.igate\<close> field of an output gate is
  visible in the model. \<^verbatim>\<open>rte_free\<close> removes the pointer from its store.
\<close>

type_synonym mod_ptr = nat
type_synonym gate_ptr = nat
type_synonym task_ptr = nat
type_synonym fn_ptr = nat

text \<open>
  Modelled from the spec: \<^verbatim>\<open>module.h\<close> and \<^verbatim>\<open>log.h\<close> are not among the sources.
  The spec names the limits \<^verbatim>\<open>MAX_GATES\<close>, \<^verbatim>\<open>MAX_TASKS_PER_MODULE\<close>,
  \<^verbatim>\<open>MODULE_NAME_LEN\<close> and leaves their values to the implementation; the values
  of the upstream headers are used. \<^verbatim>\<open>task_id_t\<close> and \<^verbatim>\<open>gate_idx_t\<close> are
  16-bit unsigned, \<^verbatim>\<open>INVALID_TASK_ID\<close> is \<^verbatim>\<open>(task_id_t)-1\<close>.
\<close>

definition MAX_GATES :: nat where
  "MAX_GATES = 8192"

definition MAX_TASKS_PER_MODULE :: nat where
  "MAX_TASKS_PER_MODULE = 32"

definition INVALID_TASK_ID :: nat where
  "INVALID_TASK_ID = 65535"

definition MODULE_NAME_LEN :: nat where
  "MODULE_NAME_LEN = 128"

definition MAX_LOG_LEN :: nat where
  "MAX_LOG_LEN = 2048"

text \<open>The \<^verbatim>\<open>errno\<close> values of Linux.\<close>

definition ENOMEM :: int where "ENOMEM = 12"
definition EBUSY :: int where "EBUSY = 16"
definition EEXIST :: int where "EEXIST = 17"
definition EINVAL :: int where "EINVAL = 22"

text \<open>
  What C leaves undefined or does not return from is a value of the model: a
  dereference of a pointer that is \<^verbatim>\<open>NULL\<close> or not in its store, a loop that does not
  end, a failed \<^verbatim>\<open>assert\<close>, a signed overflow, a write past the end of a buffer,
  and a format string that holds a conversion of its own.
\<close>

datatype fault = Segfault | Diverges | AssertFail | IntOverflow | BufferOverflow | FormatString

subsection \<open>Data model\<close>

text \<open>
  \<^verbatim>\<open>struct mclass\<close>: the hooks are function pointers; only whether they are
  \<^verbatim>\<open>NULL\<close> and which pointer is stored in a gate matters to this file. What a call
  through \<^verbatim>\<open>init\<close> or \<^verbatim>\<open>deinit\<close> does is a parameter of \<open>create_module\<close> and
  \<open>destroy_module\<close>.
\<close>

record mclass =
  class_name :: string
  def_module_name :: "string option"
  num_igates :: nat
  num_ogates :: nat
  init :: "fn_ptr option"
  deinit :: "fn_ptr option"
  process_batch :: "fn_ptr option"
  run_task :: "fn_ptr option"

text \<open>
  \<^verbatim>\<open>struct gate\<close>. The C struct overlays \<^verbatim>\<open>out\<close> and \<^verbatim>\<open>in\<close> in a union; output
  gates use only \<^verbatim>\<open>out\<close>, input gates only \<^verbatim>\<open>in\<close>, and the record keeps both.

  Modelled from the spec: \<^verbatim>\<open>cdlist.h\<close> is not among the sources. The intrusive
  circular list whose head is \<^verbatim>\<open>in.ogates_upstream\<close> of an input gate and whose
  items are \<^verbatim>\<open>out.igate_upstream\<close> of output gates (the spec's upstream set) is the
  list of the linked output gates' pointers, head first, kept in the input gate.
\<close>

record gate =
  gate_m :: "mod_ptr option"
  gate_idx :: nat
  gate_f :: "fn_ptr option"
  gate_arg :: "mod_ptr option"
  out_igate :: "gate_ptr option"
  out_igate_idx :: nat
  in_ogates_upstream :: "gate_ptr list"

text \<open>\<^verbatim>\<open>rte_zmalloc\<close> returns zeroed memory.\<close>

definition zero_gate :: gate where
  "zero_gate = \<lparr>gate_m = None, gate_idx = 0, gate_f = None, gate_arg = None,
     out_igate = None, out_igate_idx = 0, in_ogates_upstream = []\<rparr>"

text \<open>
  \<^verbatim>\<open>struct gates\<close> is the array with its \<^verbatim>\<open>curr_size\<close>: a list of nullable gate
  pointers whose length is \<^verbatim>\<open>curr_size\<close>.
  \<^verbatim>\<open>struct module\<close>: the task array has the fixed length
  \<^verbatim>\<open>MAX_TASKS_PER_MODULE\<close> and is indexed only below it; it is a function of the
  index. The name buffer is the string it holds.
\<close>

type_synonym gates = "gate_ptr option list"

definition curr_size :: "gates \<Rightarrow> nat" where
  "curr_size gs = length gs"

record module =
  mclass :: mclass
  name :: string
  tasks :: "nat \<Rightarrow> task_ptr option"
  igates :: gates
  ogates :: gates

text \<open>
  Modelled from the spec: \<^verbatim>\<open>struct task\<close> belongs to the scheduler (\<^verbatim>\<open>tc.h\<close>, not
  among the sources): a task is bound to its module and argument.
\<close>

record task =
  task_m :: mod_ptr
  task_arg :: nat

text \<open>
  The state: the store of modules, of gates and of tasks, and the namespace of type
  \<^verbatim>\<open>NS_TYPE_MODULE\<close> (modelled from the spec: a mapping from names to handles).
\<close>

record state =
  modules :: "mod_ptr \<rightharpoonup> module"
  gate_heap :: "gate_ptr \<rightharpoonup> gate"
  task_heap :: "task_ptr \<rightharpoonup> task"
  ns :: "string \<rightharpoonup> mod_ptr"

definition set_module :: "state \<Rightarrow> mod_ptr \<Rightarrow> module \<Rightarrow> state" where
  "set_module s m M = s\<lparr>modules := (modules s)(m \<mapsto> M)\<rparr>"

subsection \<open>Tasks\<close>

text \<open>
  Modelled from the spec: \<^verbatim>\<open>task_create\<close> and \<^verbatim>\<open>task_destroy\<close> are the
  scheduler's. Whether the creation succeeds, and at which pointer, is the parameter
  \<open>new_task\<close>.
\<close>

definition task_create :: "state \<Rightarrow> mod_ptr \<Rightarrow> nat \<Rightarrow> task_ptr option \<Rightarrow> task_ptr option \<times> state" where
  "task_create s m a new_task =
     (case new_task of
        None \<Rightarrow> (None, s)
      | Some t \<Rightarrow> (Some t, s\<lparr>task_heap := (task_heap s)(t \<mapsto> \<lparr>task_m = m, task_arg = a\<rparr>)\<rparr>))"

definition task_destroy :: "state \<Rightarrow> task_ptr \<Rightarrow> state" where
  "task_destroy s t = s\<lparr>task_heap := (task_heap s)(t := None)\<rparr>"

text \<open>The scan of \<open>register_task\<close> for the first empty slot, from \<open>id\<close> on.\<close>

function first_empty_slot :: "(nat \<Rightarrow> task_ptr option) \<Rightarrow> nat \<Rightarrow> nat option" where
  "first_empty_slot ts i =
     (if i < MAX_TASKS_PER_MODULE
      then (if ts i = None then Some i else first_empty_slot ts (Suc i))
      else None)"
  by pat_completeness auto
termination
  by (relation "measure (\<lambda>(ts, i). MAX_TASKS_PER_MODULE - i)") auto

declare first_empty_slot.simps [simp del]

definition register_task :: "state \<Rightarrow> mod_ptr \<Rightarrow> nat \<Rightarrow> task_ptr option \<Rightarrow> fault + (nat \<times> state)" where
  "register_task s m a new_task =
     (case modules s m of
        None \<Rightarrow> Inl Segfault
      | Some M \<Rightarrow>
          if run_task (mclass M) = None then Inr (INVALID_TASK_ID, s)
          else (case first_empty_slot (tasks M) 0 of
                  None \<Rightarrow> Inr (INVALID_TASK_ID, s)
                | Some i \<Rightarrow>
                    (case task_create s m a new_task of
                       (None, s1) \<Rightarrow> Inr (INVALID_TASK_ID, s1)
                     | (Some t, s1) \<Rightarrow>
                         Inr (i, set_module s1 m (M\<lparr>tasks := (tasks M)(i := Some t)\<rparr>)))))"

text \<open>The scan of \<open>task_to_tid\<close> for the slot that holds \<open>t\<close>, from \<open>id\<close> on.\<close>

function slot_of_task :: "(nat \<Rightarrow> task_ptr option) \<Rightarrow> task_ptr \<Rightarrow> nat \<Rightarrow> nat" where
  "slot_of_task ts t i =
     (if i < MAX_TASKS_PER_MODULE
      then (if ts i = Some t then i else slot_of_task ts t (Suc i))
      else INVALID_TASK_ID)"
  by pat_completeness auto
termination
  by (relation "measure (\<lambda>(ts, t, i). MAX_TASKS_PER_MODULE - i)") auto

declare slot_of_task.simps [simp del]

definition task_to_tid :: "state \<Rightarrow> task_ptr \<Rightarrow> fault + nat" where
  "task_to_tid s t =
     (case task_heap s t of
        None \<Rightarrow> Inl Segfault
      | Some T \<Rightarrow>
          (case modules s (task_m T) of
             None \<Rightarrow> Inl Segfault
           | Some M \<Rightarrow> Inr (slot_of_task (tasks M) t 0)))"

definition num_module_tasks :: "module \<Rightarrow> nat" where
  "num_module_tasks M = length (filter (\<lambda>i. tasks M i \<noteq> None) [0..<MAX_TASKS_PER_MODULE])"

definition destroy_all_tasks :: "state \<Rightarrow> mod_ptr \<Rightarrow> fault + state" where
  "destroy_all_tasks s m =
     (case modules s m of
        None \<Rightarrow> Inl Segfault
      | Some M \<Rightarrow>
          Inr (set_module
                 (fold (\<lambda>i s'. case tasks M i of None \<Rightarrow> s' | Some t \<Rightarrow> task_destroy s' t)
                    [0..<MAX_TASKS_PER_MODULE] s)
                 m (M\<lparr>tasks := (\<lambda>i. if i < MAX_TASKS_PER_MODULE then None else tasks M i)\<rparr>)))"

subsection \<open>Gate fabric\<close>

text \<open>
  Modelled from the spec: \<^verbatim>\<open>is_active_gate\<close> is an inline function of
  \<^verbatim>\<open>module.h\<close>. A slot is an active gate when it lies inside the array and is not
  \<^verbatim>\<open>NULL\<close>.
\<close>

definition is_active_gate :: "gates \<Rightarrow> nat \<Rightarrow> bool" where
  "is_active_gate gs idx \<longleftrightarrow> idx < curr_size gs \<and> gs ! idx \<noteq> None"

text \<open>
  A step that can fault, followed by the rest of the function.
\<close>

definition bind_fault :: "fault + 'a \<Rightarrow> ('a \<Rightarrow> fault + 'b) \<Rightarrow> fault + 'b" where
  "bind_fault x k = (case x of Inl e \<Rightarrow> Inl e | Inr v \<Rightarrow> k v)"

text \<open>Reads and writes through a module pointer and a gate pointer.\<close>

definition get_module :: "state \<Rightarrow> mod_ptr \<Rightarrow> fault + module" where
  "get_module s m = (case modules s m of None \<Rightarrow> Inl Segfault | Some M \<Rightarrow> Inr M)"

definition get_gate :: "state \<Rightarrow> gate_ptr \<Rightarrow> fault + gate" where
  "get_gate s p = (case gate_heap s p of None \<Rightarrow> Inl Segfault | Some G \<Rightarrow> Inr G)"

definition gate_update :: "state \<Rightarrow> gate_ptr \<Rightarrow> (gate \<Rightarrow> gate) \<Rightarrow> fault + state" where
  "gate_update s p g =
     (case gate_heap s p of
        None \<Rightarrow> Inl Segfault
      | Some G \<Rightarrow> Inr (s\<lparr>gate_heap := (gate_heap s)(p \<mapsto> g G)\<rparr>))"

definition alloc_gate :: "state \<Rightarrow> gate_ptr \<Rightarrow> state" where
  "alloc_gate s p = s\<lparr>gate_heap := (gate_heap s)(p \<mapsto> zero_gate)\<rparr>"

definition free_gate :: "state \<Rightarrow> gate_ptr \<Rightarrow> state" where
  "free_gate s p = s\<lparr>gate_heap := (gate_heap s)(p := None)\<rparr>"

text \<open>The slot \<^verbatim>\<open>m->igates.arr[idx]\<close>; an index outside the array is a fault.\<close>

definition get_igate :: "state \<Rightarrow> mod_ptr \<Rightarrow> nat \<Rightarrow> fault + gate_ptr option" where
  "get_igate s m idx =
     (case modules s m of
        None \<Rightarrow> Inl Segfault
      | Some M \<Rightarrow> if idx < curr_size (igates M) then Inr (igates M ! idx) else Inl Segfault)"

definition set_igate :: "state \<Rightarrow> mod_ptr \<Rightarrow> nat \<Rightarrow> gate_ptr option \<Rightarrow> fault + state" where
  "set_igate s m idx v =
     (case modules s m of
        None \<Rightarrow> Inl Segfault
      | Some M \<Rightarrow>
          if idx < curr_size (igates M)
          then Inr (set_module s m (M\<lparr>igates := (igates M)[idx := v]\<rparr>))
          else Inl Segfault)"

definition set_ogate :: "state \<Rightarrow> mod_ptr \<Rightarrow> nat \<Rightarrow> gate_ptr option \<Rightarrow> fault + state" where
  "set_ogate s m idx v =
     (case modules s m of
        None \<Rightarrow> Inl Segfault
      | Some M \<Rightarrow>
          if idx < curr_size (ogates M)
          then Inr (set_module s m (M\<lparr>ogates := (ogates M)[idx := v]\<rparr>))
          else Inl Segfault)"

text \<open>
  Modelled from the spec: the list operations of \<^verbatim>\<open>cdlist.h\<close>, on the list kept in
  the input gate \<open>head\<close>. \<^verbatim>\<open>cdlist_del\<close> takes only the item in C and unlinks it
  from the list it is in; here the list is named: it is the one of the input gate the
  output gate was added to, which \<open>connect_modules\<close> records in \<^verbatim>\<open>out.igate\<close>.
\<close>

definition cdlist_head_init :: "gate \<Rightarrow> gate" where
  "cdlist_head_init G = G\<lparr>in_ogates_upstream := []\<rparr>"

definition cdlist_add_tail :: "state \<Rightarrow> gate_ptr \<Rightarrow> gate_ptr \<Rightarrow> fault + state" where
  "cdlist_add_tail s head item =
     gate_update s head (\<lambda>G. G\<lparr>in_ogates_upstream := in_ogates_upstream G @ [item]\<rparr>)"

definition cdlist_del :: "state \<Rightarrow> gate_ptr \<Rightarrow> gate_ptr \<Rightarrow> fault + state" where
  "cdlist_del s head item =
     gate_update s head (\<lambda>G. G\<lparr>in_ogates_upstream := remove1 item (in_ogates_upstream G)\<rparr>)"

definition cdlist_is_empty :: "gate \<Rightarrow> bool" where
  "cdlist_is_empty G \<longleftrightarrow> in_ogates_upstream G = []"

text \<open>
  The doubling loop of \<open>grow_gates\<close>. \<^verbatim>\<open>new_size\<close> is a \<^verbatim>\<open>gate_idx_t\<close>, so
  the product is stored modulo \<open>2 ^ 16\<close>; once it is 0 the loop does not end.
\<close>

partial_function (option) grow_size :: "nat \<Rightarrow> nat \<Rightarrow> nat option" where
  "grow_size new_size gate =
     (if new_size \<le> gate then grow_size ((new_size * 2) mod 65536) gate else Some new_size)"

declare grow_size.simps [code]

text \<open>
  \<open>grow_gates\<close>: whether \<^verbatim>\<open>rte_realloc\<close> succeeds is the parameter
  \<open>realloc_ok\<close>. The old slots are kept and the new ones are \<^verbatim>\<open>NULL\<close>.
\<close>

definition grow_gates :: "gates \<Rightarrow> nat \<Rightarrow> bool \<Rightarrow> fault + (int \<times> gates)" where
  "grow_gates gs gate realloc_ok =
     (case grow_size (if curr_size gs \<noteq> 0 then curr_size gs else 1) gate of
        None \<Rightarrow> Inl Diverges
      | Some n \<Rightarrow>
          (let new_size = (if n > MAX_GATES then MAX_GATES else n) in
           if \<not> realloc_ok then Inr (- ENOMEM, gs)
           else Inr (0, take new_size gs @ replicate (new_size - curr_size gs) None)))"

text \<open>
  \<open>connect_modules\<close>, in the order of the source; the checks of lines 304-311 are
  in \<open>connect_modules\<close> itself, below.
\<close>

text \<open>Lines 313-317: the output gate array of \<open>m_prev\<close> grows when the index is outside.\<close>

definition connect_grow_ogates :: "state \<Rightarrow> mod_ptr \<Rightarrow> nat \<Rightarrow> bool \<Rightarrow> fault + (int \<times> state)" where
  "connect_grow_ogates s m_prev ogate_idx realloc_ok =
     bind_fault (get_module s m_prev) (\<lambda>mp.
       if ogate_idx \<ge> curr_size (ogates mp)
       then bind_fault (grow_gates (ogates mp) ogate_idx realloc_ok) (\<lambda>(ret, gs).
              Inr (ret, set_module s m_prev (mp\<lparr>ogates := gs\<rparr>)))
       else Inr (0, s))"

text \<open>Lines 323-327: the same for the input gate array of \<open>m_next\<close>.\<close>

definition connect_grow_igates :: "state \<Rightarrow> mod_ptr \<Rightarrow> nat \<Rightarrow> bool \<Rightarrow> fault + (int \<times> state)" where
  "connect_grow_igates s m_next igate_idx realloc_ok =
     bind_fault (get_module s m_next) (\<lambda>mn.
       if igate_idx \<ge> curr_size (igates mn)
       then bind_fault (grow_gates (igates mn) igate_idx realloc_ok) (\<lambda>(ret, gs).
              Inr (ret, set_module s m_next (mn\<lparr>igates := gs\<rparr>)))
       else Inr (0, s))"

text \<open>
  Lines 335-350: the input gate of the slot, created when the slot is empty. When
  its allocation fails the output gate is freed; its slot in \<open>m_prev\<close> is not reset.
  The result is the input gate, or \<open>None\<close> for the return of \<^verbatim>\<open>-ENOMEM\<close>.
\<close>

definition connect_igate ::
  "state \<Rightarrow> gate_ptr \<Rightarrow> mod_ptr \<Rightarrow> nat \<Rightarrow> gate_ptr option \<Rightarrow> fault + (gate_ptr option \<times> state)" where
  "connect_igate s ogate m_next igate_idx new_igate =
     bind_fault (get_igate s m_next igate_idx) (\<lambda>slot.
       case slot of
         Some igate \<Rightarrow> Inr (Some igate, s)
       | None \<Rightarrow>
           (case new_igate of
              None \<Rightarrow> Inr (None, free_gate s ogate)
            | Some igate \<Rightarrow>
                bind_fault (set_igate (alloc_gate s igate) m_next igate_idx (Some igate)) (\<lambda>s1.
                bind_fault (get_module s1 m_next) (\<lambda>mn.
                bind_fault (gate_update s1 igate (\<lambda>G. cdlist_head_init
                    (G\<lparr>gate_m := Some m_next, gate_idx := igate_idx,
                       gate_f := process_batch (mclass mn), gate_arg := Some m_next\<rparr>))) (\<lambda>s2.
                Inr (Some igate, s2))))))"

text \<open>
  Lines 329-361: the output gate is allocated and stored in its slot, the input gate
  is found or created, the output gate is filled in and linked to the input gate.
  Whether the two \<^verbatim>\<open>rte_zmalloc\<close> succeed, and at which pointers, are the
  parameters \<open>new_ogate\<close> and \<open>new_igate\<close>.
\<close>

definition connect_link ::
  "state \<Rightarrow> mod_ptr \<Rightarrow> nat \<Rightarrow> mod_ptr \<Rightarrow> nat \<Rightarrow> gate_ptr option \<Rightarrow> gate_ptr option
     \<Rightarrow> fault + (int \<times> state)" where
  "connect_link s m_prev ogate_idx m_next igate_idx new_ogate new_igate =
     (case new_ogate of
        None \<Rightarrow> Inr (- ENOMEM, s)
      | Some ogate \<Rightarrow>
          bind_fault (set_ogate (alloc_gate s ogate) m_prev ogate_idx (Some ogate)) (\<lambda>s1.
          bind_fault (connect_igate s1 ogate m_next igate_idx new_igate) (\<lambda>(slot, s2).
            case slot of
              None \<Rightarrow> Inr (- ENOMEM, s2)
            | Some igate \<Rightarrow>
                bind_fault (get_module s2 m_next) (\<lambda>mn.
                bind_fault (gate_update s2 ogate (\<lambda>G.
                    G\<lparr>gate_m := Some m_prev, gate_idx := ogate_idx,
                      gate_f := process_batch (mclass mn), gate_arg := Some m_next,
                      out_igate := Some igate, out_igate_idx := igate_idx\<rparr>)) (\<lambda>s3.
                bind_fault (cdlist_add_tail s3 igate ogate) (\<lambda>s4.
                Inr (0, s4)))))))"

definition connect_modules ::
  "state \<Rightarrow> mod_ptr \<Rightarrow> nat \<Rightarrow> mod_ptr \<Rightarrow> nat \<Rightarrow> bool \<Rightarrow> bool \<Rightarrow> gate_ptr option \<Rightarrow> gate_ptr option
     \<Rightarrow> fault + (int \<times> state)" where
  "connect_modules s m_prev ogate_idx m_next igate_idx ogrow_ok igrow_ok new_ogate new_igate =
     bind_fault (get_module s m_prev) (\<lambda>mp.
     bind_fault (get_module s m_next) (\<lambda>mn.
       if process_batch (mclass mn) = None then Inr (- EINVAL, s)
       else if ogate_idx \<ge> num_ogates (mclass mp) \<or> ogate_idx \<ge> MAX_GATES then Inr (- EINVAL, s)
       else if igate_idx \<ge> num_igates (mclass mn) \<or> igate_idx \<ge> MAX_GATES then Inr (- EINVAL, s)
       else
         bind_fault (connect_grow_ogates s m_prev ogate_idx ogrow_ok) (\<lambda>(ret, s1).
           if ret \<noteq> 0 then Inr (ret, s1)
           else
             bind_fault (get_module s1 m_prev) (\<lambda>mp1.
               if is_active_gate (ogates mp1) ogate_idx then Inr (- EBUSY, s1)
               else
                 bind_fault (connect_grow_igates s1 m_next igate_idx igrow_ok) (\<lambda>(ret, s2).
                   if ret \<noteq> 0 then Inr (ret, s2)
                   else connect_link s2 m_prev ogate_idx m_next igate_idx new_ogate new_igate)))))"

text \<open>\<open>disconnect_modules\<close>.\<close>

definition disconnect_modules :: "state \<Rightarrow> mod_ptr \<Rightarrow> nat \<Rightarrow> fault + (int \<times> state)" where
  "disconnect_modules s m_prev ogate_idx =
     bind_fault (get_module s m_prev) (\<lambda>mp.
       if ogate_idx \<ge> num_ogates (mclass mp) then Inr (- EINVAL, s)
       else if \<not> is_active_gate (ogates mp) ogate_idx then Inr (0, s)
       else
         (case ogates mp ! ogate_idx of
            None \<Rightarrow> Inr (0, s)
          | Some ogate \<Rightarrow>
              bind_fault (get_gate s ogate) (\<lambda>OG.
                case out_igate OG of
                  None \<Rightarrow> Inl Segfault
                | Some igate \<Rightarrow>
                    bind_fault (cdlist_del s igate ogate) (\<lambda>s1.
                    bind_fault (get_gate s1 igate) (\<lambda>IG.
                    bind_fault
                      (if cdlist_is_empty IG
                       then (case gate_m IG of
                               None \<Rightarrow> Inl Segfault
                             | Some m_next \<Rightarrow>
                                 bind_fault (set_igate s1 m_next (out_igate_idx OG) None) (\<lambda>s2.
                                 Inr (free_gate s2 igate)))
                       else Inr s1) (\<lambda>s3.
                    bind_fault (set_ogate (free_gate s3 ogate) m_prev ogate_idx None) (\<lambda>s4.
                    Inr (0, s4))))))))"

subsection \<open>The consistency of the gate graph\<close>

text \<open>
  The gate pointer in an output (input) gate slot of a module; \<open>None\<close> when the
  module does not exist, the index is outside the array or the slot is \<^verbatim>\<open>NULL\<close>.
  So \<open>ogate_at s m i = Some p\<close> says that output gate \<open>i\<close> of \<open>m\<close> is active and
  is the gate at \<open>p\<close>.
\<close>

definition ogate_at :: "state \<Rightarrow> mod_ptr \<Rightarrow> nat \<Rightarrow> gate_ptr option" where
  "ogate_at s m i =
     (case modules s m of
        None \<Rightarrow> None
      | Some M \<Rightarrow> if is_active_gate (ogates M) i then ogates M ! i else None)"

definition igate_at :: "state \<Rightarrow> mod_ptr \<Rightarrow> nat \<Rightarrow> gate_ptr option" where
  "igate_at s m i =
     (case modules s m of
        None \<Rightarrow> None
      | Some M \<Rightarrow> if is_active_gate (igates M) i then igates M ! i else None)"

text \<open>
  The two invariants of the data model as the spec words them.
  (1) For every active output gate, the input gate it references is active and has
  the output gate in its upstream set.
  (2) For every active input gate, every output gate of its upstream set has it as
  downstream gate.
\<close>

definition bidirectional_ok :: "state \<Rightarrow> bool" where
  "bidirectional_ok s \<longleftrightarrow>
     (\<forall>m i p. ogate_at s m i = Some p \<longrightarrow>
        (\<exists>G q Q mn j. gate_heap s p = Some G \<and> out_igate G = Some q \<and> igate_at s mn j = Some q
           \<and> gate_heap s q = Some Q \<and> p \<in> set (in_ogates_upstream Q)))
     \<and> (\<forall>m i q. igate_at s m i = Some q \<longrightarrow>
        (\<exists>Q. gate_heap s q = Some Q
           \<and> (\<forall>p \<in> set (in_ogates_upstream Q). \<exists>G. gate_heap s p = Some G \<and> out_igate G = Some q)))"

text \<open>
  The invariant the operations keep is stronger. An active output gate belongs to
  its slot (\<^verbatim>\<open>m\<close> and \<^verbatim>\<open>gate_idx\<close>), its index is below the class's
  \<^verbatim>\<open>num_ogates\<close>, its argument is the downstream module and
  \<^verbatim>\<open>out.igate_idx\<close> the slot of the downstream gate there.
\<close>

definition ogates_ok :: "state \<Rightarrow> bool" where
  "ogates_ok s \<longleftrightarrow>
     (\<forall>m i p. ogate_at s m i = Some p \<longrightarrow>
        (\<exists>M. modules s m = Some M \<and> i < num_ogates (mclass M))
        \<and> (\<exists>G q Q mn. gate_heap s p = Some G \<and> gate_m G = Some m \<and> gate_idx G = i
              \<and> out_igate G = Some q \<and> gate_arg G = Some mn
              \<and> igate_at s mn (out_igate_idx G) = Some q
              \<and> gate_heap s q = Some Q \<and> p \<in> set (in_ogates_upstream Q)))"

text \<open>
  An active input gate belongs to its slot; its upstream list is not empty and has
  no repetition, and each of its members is an active output gate, in the slot its
  \<^verbatim>\<open>m\<close> and \<^verbatim>\<open>gate_idx\<close> name, whose downstream gate is this one.
\<close>

definition igates_ok :: "state \<Rightarrow> bool" where
  "igates_ok s \<longleftrightarrow>
     (\<forall>m i q. igate_at s m i = Some q \<longrightarrow>
        (\<exists>Q. gate_heap s q = Some Q \<and> gate_m Q = Some m \<and> gate_idx Q = i
           \<and> in_ogates_upstream Q \<noteq> [] \<and> distinct (in_ogates_upstream Q)
           \<and> (\<forall>p \<in> set (in_ogates_upstream Q).
                \<exists>G mo. gate_heap s p = Some G \<and> out_igate G = Some q \<and> out_igate_idx G = i
                  \<and> gate_m G = Some mo \<and> ogate_at s mo (gate_idx G) = Some p)))"

text \<open>No gate is an output gate and an input gate at once.\<close>

definition gates_disjoint :: "state \<Rightarrow> bool" where
  "gates_disjoint s \<longleftrightarrow>
     (\<forall>m i m' i' p. ogate_at s m i = Some p \<longrightarrow> igate_at s m' i' \<noteq> Some p)"

definition graph_ok :: "state \<Rightarrow> bool" where
  "graph_ok s \<longleftrightarrow> ogates_ok s \<and> igates_ok s \<and> gates_disjoint s"

text \<open>
  \<open>padded s s'\<close>: the state \<open>s'\<close> is \<open>s\<close> but for \<^verbatim>\<open>NULL\<close> slots appended to
  gate arrays, which is what \<open>grow_gates\<close> does.
\<close>

definition padded_module :: "module \<Rightarrow> module \<Rightarrow> bool" where
  "padded_module M M' \<longleftrightarrow>
     mclass M' = mclass M \<and> name M' = name M \<and> tasks M' = tasks M
     \<and> (\<exists>k. igates M' = igates M @ replicate k None)
     \<and> (\<exists>k. ogates M' = ogates M @ replicate k None)"

definition padded :: "state \<Rightarrow> state \<Rightarrow> bool" where
  "padded s s' \<longleftrightarrow>
     gate_heap s' = gate_heap s \<and> task_heap s' = task_heap s \<and> ns s' = ns s
     \<and> (\<forall>m. rel_option padded_module (modules s m) (modules s' m))"

text \<open>
  \<open>same_frame s s'\<close>: the two states differ in gate slots and gates only; the
  namespace, the tasks, the modules that exist, their classes, names and task slots
  and the sizes of their gate arrays are the same.
\<close>

definition same_frame_module :: "module \<Rightarrow> module \<Rightarrow> bool" where
  "same_frame_module M M' \<longleftrightarrow>
     mclass M' = mclass M \<and> name M' = name M \<and> tasks M' = tasks M
     \<and> curr_size (igates M') = curr_size (igates M)
     \<and> curr_size (ogates M') = curr_size (ogates M)"

definition same_frame :: "state \<Rightarrow> state \<Rightarrow> bool" where
  "same_frame s s' \<longleftrightarrow>
     task_heap s' = task_heap s \<and> ns s' = ns s
     \<and> (\<forall>m. rel_option same_frame_module (modules s m) (modules s' m))"

text \<open>The gates that a successful \<open>connect_modules\<close> leaves at the new pointers.\<close>

definition new_ogate_val :: "mod_ptr \<Rightarrow> nat \<Rightarrow> mod_ptr \<Rightarrow> nat \<Rightarrow> fn_ptr option \<Rightarrow> gate_ptr \<Rightarrow> gate" where
  "new_ogate_val m_prev oi m_next ii pb q =
     \<lparr>gate_m = Some m_prev, gate_idx = oi, gate_f = pb, gate_arg = Some m_next,
      out_igate = Some q, out_igate_idx = ii, in_ogates_upstream = []\<rparr>"

definition new_igate_val :: "mod_ptr \<Rightarrow> nat \<Rightarrow> fn_ptr option \<Rightarrow> gate_ptr \<Rightarrow> gate" where
  "new_igate_val m_next ii pb p =
     \<lparr>gate_m = Some m_next, gate_idx = ii, gate_f = pb, gate_arg = Some m_next,
      out_igate = None, out_igate_idx = 0, in_ogates_upstream = [p]\<rparr>"

text \<open>
  \<open>edge_removed s m oi p s'\<close>: the state \<open>s'\<close> is \<open>s\<close> without the edge of the
  output gate \<open>p\<close> in slot \<open>oi\<close> of \<open>m\<close>: the slot is empty and the gate freed;
  the gate is taken from the upstream list of its downstream gate, and when the list
  becomes empty the downstream gate is freed and its slot emptied.
\<close>

definition edge_removed :: "state \<Rightarrow> mod_ptr \<Rightarrow> nat \<Rightarrow> gate_ptr \<Rightarrow> state \<Rightarrow> bool" where
  "edge_removed s m oi p s' \<longleftrightarrow>
     (\<exists>G q Q mn. gate_heap s p = Some G \<and> out_igate G = Some q
        \<and> gate_heap s q = Some Q \<and> gate_m Q = Some mn
        \<and> (\<forall>m' i. ogate_at s' m' i = (if m' = m \<and> i = oi then None else ogate_at s m' i))
        \<and> (\<forall>m' i. igate_at s' m' i =
              (if remove1 p (in_ogates_upstream Q) = [] \<and> m' = mn \<and> i = out_igate_idx G then None
               else igate_at s m' i))
        \<and> gate_heap s' =
             (if remove1 p (in_ogates_upstream Q) = [] then (gate_heap s)(q := None, p := None)
              else (gate_heap s)(q \<mapsto> Q\<lparr>in_ogates_upstream := remove1 p (in_ogates_upstream Q)\<rparr>,
                                 p := None))
        \<and> same_frame s s')"

text \<open>
  \<open>edge_added s m_prev oi m_next ii p q s'\<close>: the state \<open>s'\<close> is \<open>s\<close> with the new
  output gate \<open>p\<close> in slot \<open>oi\<close> of \<open>m_prev\<close>, linked to the input gate \<open>q\<close> in
  slot \<open>ii\<close> of \<open>m_next\<close>, which is either the gate that was there or a new one.
\<close>

definition edge_added ::
  "state \<Rightarrow> mod_ptr \<Rightarrow> nat \<Rightarrow> mod_ptr \<Rightarrow> nat \<Rightarrow> gate_ptr \<Rightarrow> gate_ptr \<Rightarrow> state \<Rightarrow> bool" where
  "edge_added s m_prev oi m_next ii p q s' \<longleftrightarrow>
     (\<exists>N. modules s m_next = Some N
        \<and> (\<forall>m i. ogate_at s' m i = (if m = m_prev \<and> i = oi then Some p else ogate_at s m i))
        \<and> (\<forall>m i. igate_at s' m i = (if m = m_next \<and> i = ii then Some q else igate_at s m i))
        \<and> ((igate_at s m_next ii = None
              \<and> gate_heap s' = (gate_heap s)
                   (p \<mapsto> new_ogate_val m_prev oi m_next ii (process_batch (mclass N)) q,
                    q \<mapsto> new_igate_val m_next ii (process_batch (mclass N)) p))
            \<or> (\<exists>Q. igate_at s m_next ii = Some q \<and> gate_heap s q = Some Q
                 \<and> gate_heap s' = (gate_heap s)
                     (p \<mapsto> new_ogate_val m_prev oi m_next ii (process_batch (mclass N)) q,
                      q \<mapsto> Q\<lparr>in_ogates_upstream := in_ogates_upstream Q @ [p]\<rparr>)))
        \<and> same_frame s s')"

subsection \<open>Module names\<close>

text \<open>
  Modelled from the spec: \<^verbatim>\<open>find_module\<close> is \<^verbatim>\<open>ns_lookup\<close> of type
  \<^verbatim>\<open>NS_TYPE_MODULE\<close>; \<^verbatim>\<open>namespace.c\<close> is not among the sources. \<^verbatim>\<open>ns_insert\<close>
  fails with \<^verbatim>\<open>-EEXIST\<close> on a name that is bound and binds the name otherwise;
  \<^verbatim>\<open>ns_remove\<close> unbinds the name.
\<close>

definition find_module :: "state \<Rightarrow> string \<Rightarrow> mod_ptr option" where
  "find_module s n = ns s n"

definition ns_insert :: "state \<Rightarrow> string \<Rightarrow> mod_ptr \<Rightarrow> int \<times> state" where
  "ns_insert s n m =
     (if ns s n \<noteq> None then (- EEXIST, s) else (0, s\<lparr>ns := (ns s)(n \<mapsto> m)\<rparr>))"

definition ns_remove :: "state \<Rightarrow> string \<Rightarrow> state" where
  "ns_remove s n = s\<lparr>ns := (ns s)(n := None)\<rparr>"

text \<open>
  \<^verbatim>\<open>islower\<close>, \<^verbatim>\<open>isupper\<close> and \<^verbatim>\<open>tolower\<close> of the C locale, on the code of the
  character.
\<close>

definition islower :: "char \<Rightarrow> bool" where
  "islower c \<longleftrightarrow> 97 \<le> (of_char c :: nat) \<and> (of_char c :: nat) \<le> 122"

definition isupper :: "char \<Rightarrow> bool" where
  "isupper c \<longleftrightarrow> 65 \<le> (of_char c :: nat) \<and> (of_char c :: nat) \<le> 90"

definition tolower :: "char \<Rightarrow> char" where
  "tolower c = (if isupper c then char_of ((of_char c :: nat) + 32) else c)"

text \<open>
  The loop of \<open>set_default_name\<close> over the class name (lines 105-110): \<open>prev\<close> is the
  character before the current one, \<open>None\<close> at the start of the name.
\<close>

fun camel_to_snake :: "char option \<Rightarrow> string \<Rightarrow> string" where
  "camel_to_snake prev [] = []"
| "camel_to_snake prev (c # cs) =
     (if (case prev of None \<Rightarrow> False | Some p \<Rightarrow> islower p \<and> isupper c) then [CHR ''_''] else [])
     @ tolower c # camel_to_snake (Some c) cs"

text \<open>The decimal digits that \<^verbatim>\<open>%d\<close> prints for a number that is not negative.\<close>

fun dec :: "nat \<Rightarrow> string" where
  "dec n = (if n < 10 then [char_of (48 + n)] else dec (n div 10) @ [char_of (48 + n mod 10)])"

declare dec.simps [simp del]

text \<open>
  \<^verbatim>\<open>snprintf(m->name, MODULE_NAME_LEN, fmt, i)\<close> with the one \<^verbatim>\<open>int\<close> argument: the
  text that the format gives, where \<open>d\<close> are the digits of the argument and \<open>used\<close>
  says that the argument has been consumed. \<^verbatim>\<open>%%\<close> is a percent sign and the
  first \<^verbatim>\<open>%d\<close> the argument. A second \<^verbatim>\<open>%d\<close> has no argument and a \<^verbatim>\<open>%\<close> at
  the end is no conversion: both are undefined. Conversions other than these two
  (flags, widths, other letters) are not followed and give the same fault.
\<close>

fun snprintf_int :: "string \<Rightarrow> string \<Rightarrow> bool \<Rightarrow> fault + string" where
  "snprintf_int [] d used = Inr []"
| "snprintf_int [c] d used = (if c = CHR ''%'' then Inl FormatString else Inr [c])"
| "snprintf_int (c # c' # cs) d used =
     (if c \<noteq> CHR ''%'' then bind_fault (snprintf_int (c' # cs) d used) (\<lambda>r. Inr (c # r))
      else if c' = CHR ''%'' then bind_fault (snprintf_int cs d used) (\<lambda>r. Inr (CHR ''%'' # r))
      else if c' = CHR ''d'' \<and> \<not> used then bind_fault (snprintf_int cs d True) (\<lambda>r. Inr (d @ r))
      else Inl FormatString)"

text \<open>
  The probing loop (lines 118-126) for the format \<open>fmt\<close>, from \<open>i\<close> on.
  \<^verbatim>\<open>snprintf\<close> returns the length of the whole name and the \<^verbatim>\<open>assert\<close> wants it
  below \<^verbatim>\<open>MODULE_NAME_LEN\<close>; \<open>i\<close> is an \<^verbatim>\<open>int\<close>, so the increment of
  \<open>2 ^ 31 - 1 = 2147483647\<close> overflows. The loop has no bound of its own.
\<close>

partial_function (option) probe_name :: "state \<Rightarrow> string \<Rightarrow> nat \<Rightarrow> (fault + string) option" where
  "probe_name s fmt i =
     (case snprintf_int fmt (dec i) False of
        Inl e \<Rightarrow> Some (Inl e)
      | Inr nm \<Rightarrow>
          if length nm \<ge> MODULE_NAME_LEN then Some (Inl AssertFail)
          else if find_module s nm = None then Some (Inr nm)
          else if i + 1 \<ge> 2147483648 then Some (Inl IntOverflow)
          else probe_name s fmt (i + 1))"

declare probe_name.simps [code]

text \<open>
  \<open>set_default_name\<close> gives the name it leaves in \<^verbatim>\<open>m->name\<close>. The format is built
  in a buffer of \<^verbatim>\<open>strlen\<close> of the template plus 16 bytes, which must hold the
  converted name, \<^verbatim>\<open>%d\<close> and the final 0. The format is then read by
  \<^verbatim>\<open>snprintf\<close>, so a \<^verbatim>\<open>%\<close> in the name is read as the start of a conversion.
\<close>

definition set_default_name :: "state \<Rightarrow> mclass \<Rightarrow> fault + string" where
  "set_default_name s c =
     (let base = (case def_module_name c of
                    Some d \<Rightarrow> d
                  | None \<Rightarrow> camel_to_snake None (class_name c));
          template = (case def_module_name c of Some d \<Rightarrow> d | None \<Rightarrow> class_name c)
      in if length base + 3 > length template + 16 then Inl BufferOverflow
         else (case probe_name s (base @ ''%d'') 0 of None \<Rightarrow> Inl Diverges | Some r \<Rightarrow> r))"

subsection \<open>Creating and destroying modules\<close>

text \<open>
  Modelled from the spec: \<^verbatim>\<open>snobj.h\<close> is not among the sources. An error object
  carries a code (and a message, which is left out); any other object is opaque.
\<close>

datatype snobj = Err_obj int | Obj nat

definition snobj_err :: "int \<Rightarrow> snobj" where
  "snobj_err code = Err_obj code"

definition snobj_errno :: "int \<Rightarrow> snobj" where
  "snobj_errno code = Err_obj code"

definition register_module :: "state \<Rightarrow> mod_ptr \<Rightarrow> fault + (int \<times> state)" where
  "register_module s m =
     bind_fault (get_module s m) (\<lambda>M.
       case ns_insert s (name M) m of
         (ret, s1) \<Rightarrow> if ret < 0 then Inr (ret, s1) else Inr (0, s1))"

text \<open>\<^verbatim>\<open>rte_free\<close> of the name and of the module.\<close>

definition free_module :: "state \<Rightarrow> mod_ptr \<Rightarrow> state" where
  "free_module s m = s\<lparr>modules := (modules s)(m := None)\<rparr>"

text \<open>The label \<^verbatim>\<open>fail\<close> of \<open>create_module\<close> for a module that was allocated.\<close>

definition create_fail :: "state \<Rightarrow> mod_ptr \<Rightarrow> snobj \<Rightarrow> fault + (mod_ptr option \<times> snobj option \<times> state)" where
  "create_fail s m err =
     bind_fault (destroy_all_tasks s m) (\<lambda>s1. Inr (None, Some err, free_module s1 m))"

text \<open>
  \<open>create_module\<close> returns the module pointer and \<^verbatim>\<open>*perr\<close>. Whether the two
  \<^verbatim>\<open>rte_zmalloc\<close> succeed, and where the module is allocated, are the parameters
  \<open>new_m\<close> and \<open>name_ok\<close>; what the call through \<^verbatim>\<open>mclass->init\<close> does to the
  state and which error object it returns is the parameter \<open>call_init\<close>.
  \<^verbatim>\<open>snprintf\<close> cuts a given name to \<^verbatim>\<open>MODULE_NAME_LEN - 1\<close> characters.

  Lines 205-217, once the module has its name: the \<^verbatim>\<open>init\<close> hook and the
  registration.
\<close>

definition create_init_register ::
  "(fn_ptr \<Rightarrow> mod_ptr \<Rightarrow> snobj \<Rightarrow> state \<Rightarrow> snobj option \<times> state)
     \<Rightarrow> state \<Rightarrow> mod_ptr \<Rightarrow> mclass \<Rightarrow> snobj
     \<Rightarrow> fault + (mod_ptr option \<times> snobj option \<times> state)" where
  "create_init_register call_init s m c arg =
     (case (case init c of
              None \<Rightarrow> (None, s)
            | Some h \<Rightarrow> call_init h m arg s) of
        (Some err, s3) \<Rightarrow> create_fail s3 m err
      | (None, s3) \<Rightarrow>
          bind_fault (register_module s3 m) (\<lambda>(ret, s4).
            if ret \<noteq> 0 then create_fail s4 m (snobj_errno (- ret))
            else Inr (Some m, None, s4)))"

text \<open>The module as \<^verbatim>\<open>rte_zmalloc\<close> and line 179 leave it.\<close>

definition zero_module :: "mclass \<Rightarrow> module" where
  "zero_module c = \<lparr>mclass = c, name = [], tasks = (\<lambda>_. None), igates = [], ogates = []\<rparr>"

definition create_module ::
  "(fn_ptr \<Rightarrow> mod_ptr \<Rightarrow> snobj \<Rightarrow> state \<Rightarrow> snobj option \<times> state)
     \<Rightarrow> state \<Rightarrow> string option \<Rightarrow> mclass \<Rightarrow> snobj \<Rightarrow> mod_ptr option \<Rightarrow> bool
     \<Rightarrow> fault + (mod_ptr option \<times> snobj option \<times> state)" where
  "create_module call_init s name_arg c arg new_m name_ok =
     (if (case name_arg of None \<Rightarrow> False | Some n \<Rightarrow> find_module s n \<noteq> None)
      then Inr (None, Some (snobj_err EEXIST), s)
      else
        (case new_m of
           None \<Rightarrow> Inr (None, Some (snobj_errno ENOMEM), s)
         | Some m \<Rightarrow>
             (let s1 = set_module s m (zero_module c)
              in if \<not> name_ok then create_fail s1 m (snobj_errno ENOMEM)
                 else
                   bind_fault (case name_arg of
                                 None \<Rightarrow> set_default_name s1 c
                               | Some n \<Rightarrow> Inr (take (MODULE_NAME_LEN - 1) n)) (\<lambda>nm.
                   bind_fault (get_module s1 m) (\<lambda>M.
                     create_init_register call_init (set_module s1 m (M\<lparr>name := nm\<rparr>)) m c arg)))))"

text \<open>
  The calls that \<open>destroy_module\<close> makes, in their order: a ghost output of the
  model, to state the order of its steps.
\<close>

datatype call =
    Call_deinit mod_ptr
  | Call_disconnect_modules mod_ptr nat
  | Call_destroy_all_tasks mod_ptr
  | Call_ns_remove string
  | Call_rte_free_name mod_ptr
  | Call_rte_free_ogates mod_ptr
  | Call_rte_free_igates mod_ptr
  | Call_rte_free_module mod_ptr

text \<open>
  Modelled from the spec: \<^verbatim>\<open>cdlist_for_each_entry_safe\<close> iterates "safely over a
  mutating list": it holds the next item before the body runs, and the body unlinks
  the current item only. The model walks the list as it is when the loop starts;
  \<open>os\<close> are the items still to visit (lines 244-248).
\<close>

fun destroy_upstream_gate :: "state \<Rightarrow> gate_ptr list \<Rightarrow> fault + (call list \<times> state)" where
  "destroy_upstream_gate s [] = Inr ([], s)"
| "destroy_upstream_gate s (ogate # os) =
     bind_fault (get_gate s ogate) (\<lambda>OG.
       case gate_m OG of
         None \<Rightarrow> Inl Segfault
       | Some om \<Rightarrow>
           bind_fault (disconnect_modules s om (gate_idx OG)) (\<lambda>(ret, s1).
           bind_fault (destroy_upstream_gate s1 os) (\<lambda>(cs, s2).
           Inr (Call_disconnect_modules om (gate_idx OG) # cs, s2))))"

text \<open>
  The loops of \<open>destroy_module\<close> read \<^verbatim>\<open>curr_size\<close> at every turn. They end
  because \<open>disconnect_modules\<close> never changes the size of a gate array.
\<close>

definition gate_sizes :: "state \<Rightarrow> mod_ptr \<Rightarrow> (nat \<times> nat) option" where
  "gate_sizes s m = map_option (\<lambda>M. (curr_size (igates M), curr_size (ogates M))) (modules s m)"

lemma bind_fault_cong [fundef_cong]:
  "x = y \<Longrightarrow> (\<And>v. y = Inr v \<Longrightarrow> k v = k' v) \<Longrightarrow> bind_fault x k = bind_fault y k'"
  by (cases y) (simp_all add: bind_fault_def)

lemma bind_fault_InrD:
  "bind_fault x k = Inr v \<Longrightarrow> \<exists>u. x = Inr u \<and> k u = Inr v"
  by (cases x) (simp_all add: bind_fault_def)

lemma gate_sizes_gate_update:
  "gate_update s p g = Inr s' \<Longrightarrow> gate_sizes s' = gate_sizes s"
  by (auto simp: gate_update_def gate_sizes_def split: option.splits intro!: ext)

lemma gate_sizes_free_gate: "gate_sizes (free_gate s p) = gate_sizes s"
  by (auto simp: free_gate_def gate_sizes_def intro!: ext)

lemma gate_sizes_set_igate:
  "set_igate s m i v = Inr s' \<Longrightarrow> gate_sizes s' = gate_sizes s"
  by (auto simp: set_igate_def set_module_def gate_sizes_def curr_size_def
      split: option.splits if_splits intro!: ext)

lemma gate_sizes_set_ogate:
  "set_ogate s m i v = Inr s' \<Longrightarrow> gate_sizes s' = gate_sizes s"
  by (auto simp: set_ogate_def set_module_def gate_sizes_def curr_size_def
      split: option.splits if_splits intro!: ext)

lemma bind_fault_InrE:
  assumes "bind_fault x k = Inr v"
  obtains u where "x = Inr u" "k u = Inr v"
  using assms by (cases x) (simp_all add: bind_fault_def)

lemma gate_sizes_disconnect_modules:
  assumes "disconnect_modules s m i = Inr (r, s')"
  shows "gate_sizes s' = gate_sizes s"
  using assms unfolding disconnect_modules_def get_module_def cdlist_del_def
  by (auto elim!: bind_fault_InrE split: option.splits if_splits
      simp: gate_sizes_free_gate
      dest!: gate_sizes_gate_update gate_sizes_set_igate gate_sizes_set_ogate)

lemma gate_sizes_destroy_upstream_gate:
  "destroy_upstream_gate s os = Inr (cs, s') \<Longrightarrow> gate_sizes s' = gate_sizes s"
proof (induction os arbitrary: s cs)
  case Nil
  then show ?case by simp
next
  case (Cons ogate os)
  from Cons.prems show ?case
    by (auto elim!: bind_fault_InrE split: option.splits
        dest!: gate_sizes_disconnect_modules Cons.IH)
qed

lemma nat_diff_Suc_less: "i < n \<Longrightarrow> n - Suc i < n - i"
  by arith

text \<open>The first loop of \<open>destroy_module\<close> (lines 236-249), from the index \<open>i\<close> on.\<close>

function destroy_upstream :: "state \<Rightarrow> mod_ptr \<Rightarrow> nat \<Rightarrow> fault + (call list \<times> state)" where
  "destroy_upstream s m i =
     (case modules s m of
        None \<Rightarrow> Inl Segfault
      | Some M \<Rightarrow>
          if i < curr_size (igates M)
          then (if \<not> is_active_gate (igates M) i then destroy_upstream s m (Suc i)
                else (case igates M ! i of
                        None \<Rightarrow> Inl Segfault
                      | Some igate \<Rightarrow>
                          bind_fault (get_gate s igate) (\<lambda>IG.
                          bind_fault (destroy_upstream_gate s (in_ogates_upstream IG)) (\<lambda>(cs, s1).
                          bind_fault (destroy_upstream s1 m (Suc i)) (\<lambda>(cs', s2).
                          Inr (cs @ cs', s2))))))
          else Inr ([], s))"
  by pat_completeness auto
termination
proof (relation "measure (\<lambda>(s, m, i). case gate_sizes s m of None \<Rightarrow> 0 | Some (ni, no) \<Rightarrow> ni - i)")
  show "wf (measure (\<lambda>(s, m, i). case gate_sizes s m of None \<Rightarrow> 0 | Some (ni, no) \<Rightarrow> ni - i))"
    by simp
next
  fix s :: state and m i M
  assume "modules s m = Some M" "i < curr_size (igates M)"
  then show "((s, m, Suc i), (s, m, i))
      \<in> measure (\<lambda>(s, m, i). case gate_sizes s m of None \<Rightarrow> 0 | Some (ni, no) \<Rightarrow> ni - i)"
    by (simp add: gate_sizes_def nat_diff_Suc_less)
next
  fix s :: state and m i M igate IG x cs s1
  assume a: "modules s m = Some M" "i < curr_size (igates M)"
     "destroy_upstream_gate s (in_ogates_upstream IG) = Inr x" "(cs, s1) = x"
  then have "gate_sizes s1 = gate_sizes s"
    by (intro gate_sizes_destroy_upstream_gate[of s "in_ogates_upstream IG" cs]) simp
  moreover have "gate_sizes s m = Some (curr_size (igates M), curr_size (ogates M))"
    using a(1) by (simp add: gate_sizes_def)
  ultimately show "((s1, m, Suc i), (s, m, i))
      \<in> measure (\<lambda>(s, m, i). case gate_sizes s m of None \<Rightarrow> 0 | Some (ni, no) \<Rightarrow> ni - i)"
    using a(2) by (simp add: nat_diff_Suc_less)
qed

declare destroy_upstream.simps [simp del]

text \<open>
  The second loop (lines 252-253), from the index \<open>i\<close> on. The index is a
  \<^verbatim>\<open>gate_idx_t\<close>, as \<^verbatim>\<open>curr_size\<close> is, so it reaches \<^verbatim>\<open>curr_size\<close> without
  wrapping.
\<close>

function destroy_downstream :: "state \<Rightarrow> mod_ptr \<Rightarrow> nat \<Rightarrow> fault + (call list \<times> state)" where
  "destroy_downstream s m i =
     (case modules s m of
        None \<Rightarrow> Inl Segfault
      | Some M \<Rightarrow>
          if i < curr_size (ogates M)
          then bind_fault (disconnect_modules s m i) (\<lambda>(ret, s1).
               bind_fault (destroy_downstream s1 m (Suc i)) (\<lambda>(cs, s2).
               Inr (Call_disconnect_modules m i # cs, s2)))
          else Inr ([], s))"
  by pat_completeness auto
termination
proof (relation "measure (\<lambda>(s, m, i). case gate_sizes s m of None \<Rightarrow> 0 | Some (ni, no) \<Rightarrow> no - i)")
  show "wf (measure (\<lambda>(s, m, i). case gate_sizes s m of None \<Rightarrow> 0 | Some (ni, no) \<Rightarrow> no - i))"
    by simp
next
  fix s :: state and m i M x ret s1
  assume a: "modules s m = Some M" "i < curr_size (ogates M)"
     "disconnect_modules s m i = Inr x" "(ret, s1) = x"
  then have "gate_sizes s1 = gate_sizes s"
    by (intro gate_sizes_disconnect_modules[of s m i ret]) simp
  moreover have "gate_sizes s m = Some (curr_size (igates M), curr_size (ogates M))"
    using a(1) by (simp add: gate_sizes_def)
  ultimately show "((s1, m, Suc i), (s, m, i))
      \<in> measure (\<lambda>(s, m, i). case gate_sizes s m of None \<Rightarrow> 0 | Some (ni, no) \<Rightarrow> no - i)"
    using a(2) by (simp add: nat_diff_Suc_less)
qed

declare destroy_downstream.simps [simp del]

text \<open>
  \<open>destroy_module\<close> gives the calls it made and the state afterwards. What the call
  through \<^verbatim>\<open>mclass->deinit\<close> does to the state is the parameter \<open>call_deinit\<close>.
\<close>

definition destroy_module ::
  "(fn_ptr \<Rightarrow> mod_ptr \<Rightarrow> state \<Rightarrow> state) \<Rightarrow> state \<Rightarrow> mod_ptr \<Rightarrow> fault + (call list \<times> state)" where
  "destroy_module call_deinit s m =
     bind_fault (get_module s m) (\<lambda>M.
       case (case deinit (mclass M) of
               None \<Rightarrow> ([], s)
             | Some h \<Rightarrow> ([Call_deinit m], call_deinit h m s)) of
         (cs0, s0) \<Rightarrow>
           bind_fault (destroy_upstream s0 m 0) (\<lambda>(cs1, s1).
           bind_fault (destroy_downstream s1 m 0) (\<lambda>(cs2, s2).
           bind_fault (destroy_all_tasks s2 m) (\<lambda>s3.
           bind_fault (get_module s3 m) (\<lambda>M3.
             Inr (cs0 @ cs1 @ cs2 @
                    [Call_destroy_all_tasks m, Call_ns_remove (name M3), Call_rte_free_name m,
                     Call_rte_free_ogates m, Call_rte_free_igates m, Call_rte_free_module m],
                  free_module (ns_remove s3 (name M3)) m))))))"

text \<open>
  What the hooks may do, as far as the theorems below need it: a call through
  \<^verbatim>\<open>init\<close> or \<^verbatim>\<open>deinit\<close> of a module may change its task slots and the tasks
  (the private data of a module is not part of the model); it leaves the namespace,
  the gates, the other modules, and the class, name and gate arrays of the module
  as they are.
\<close>

definition hook_frame :: "mod_ptr \<Rightarrow> state \<Rightarrow> state \<Rightarrow> bool" where
  "hook_frame m s s' \<longleftrightarrow>
     ns s' = ns s \<and> gate_heap s' = gate_heap s
     \<and> (\<forall>x. x \<noteq> m \<longrightarrow> modules s' x = modules s x)
     \<and> rel_option (\<lambda>M M'. mclass M' = mclass M \<and> name M' = name M
                       \<and> igates M' = igates M \<and> ogates M' = ogates M)
          (modules s m) (modules s' m)"

definition init_hook_frame ::
  "(fn_ptr \<Rightarrow> mod_ptr \<Rightarrow> snobj \<Rightarrow> state \<Rightarrow> snobj option \<times> state) \<Rightarrow> bool" where
  "init_hook_frame call_init \<longleftrightarrow> (\<forall>h m a s. hook_frame m s (snd (call_init h m a s)))"


text \<open>
  The name that \<open>set_default_name\<close> puts before the number, and the same in the
  words of the spec: an underscore is put before every upper-case letter that
  follows a lower-case letter, and everything is put in lower case.
\<close>

definition default_base :: "mclass \<Rightarrow> string" where
  "default_base c =
     (case def_module_name c of Some d \<Rightarrow> d | None \<Rightarrow> camel_to_snake None (class_name c))"

fun underscores :: "string \<Rightarrow> string" where
  "underscores (a # b # cs) =
     (if islower a \<and> isupper b then a # CHR ''_'' # underscores (b # cs)
      else a # underscores (b # cs))"
| "underscores cs = cs"

definition snake_case :: "string \<Rightarrow> string" where
  "snake_case n = map tolower (underscores n)"

subsection \<open>The logger (core/log.c)\<close>

text \<open>
  \<^verbatim>\<open>LOG_ERR\<close> and \<^verbatim>\<open>LOG_DEBUG\<close> are the priorities 3 and 7 of \<^verbatim>\<open>syslog.h\<close>.
\<close>

definition LOG_ERR :: int where "LOG_ERR = 3"
definition MAX_LOG_PRIORITY :: int where "MAX_LOG_PRIORITY = 7"

definition NUL :: char where "NUL = CHR 0x00"
definition LF :: char where "LF = CHR 0x0A"

text \<open>
  \<^verbatim>\<open>struct logger\<close>: the array \<^verbatim>\<open>buf\<close> of \<^verbatim>\<open>MAX_LOG_LEN * 2\<close> bytes and the
  number \<^verbatim>\<open>len\<close> of buffered bytes. The thread-local array \<^verbatim>\<open>loggers\<close> is a
  function of the priority.
\<close>

record logger =
  buf :: "char list"
  len :: int

definition buf_size :: nat where
  "buf_size = MAX_LOG_LEN * 2"

text \<open>The buffered text: the first \<^verbatim>\<open>len\<close> bytes of \<^verbatim>\<open>buf\<close>.\<close>

definition buffered :: "logger \<Rightarrow> string" where
  "buffered lg = take (nat (len lg)) (buf lg)"

text \<open>
  \<^verbatim>\<open>vsnprintf(buf + off, sz, ...)\<close> for a formatted message \<open>msg\<close>: at most
  \<open>sz - 1\<close> of its bytes are written at \<open>off\<close>, then a 0 byte; nothing is written
  when \<open>sz\<close> is 0. The result of the call is the length of \<open>msg\<close>.
\<close>

definition vsnprintf :: "char list \<Rightarrow> nat \<Rightarrow> nat \<Rightarrow> string \<Rightarrow> char list" where
  "vsnprintf b off sz msg =
     (if sz = 0 then b
      else (let n = min (length msg) (sz - 1)
            in take off b @ take n msg @ [NUL] @ drop (off + n + 1) b))"

text \<open>
  \<^verbatim>\<open>strchr(p, '\n')\<close> on the bytes from \<open>p\<close> on: the distance to the first line
  feed before the first 0 byte.
\<close>

fun find_lf :: "char list \<Rightarrow> nat option" where
  "find_lf [] = None"
| "find_lf (c # cs) =
     (if c = LF then Some 0 else if c = NUL then None else map_option Suc (find_lf cs))"

definition strchr_lf :: "char list \<Rightarrow> nat \<Rightarrow> nat option" where
  "strchr_lf b p = map_option (\<lambda>k. p + k) (find_lf (drop p b))"

lemma find_lf_bound: "find_lf cs = Some k \<Longrightarrow> k < length cs"
  by (induction cs arbitrary: k) (auto split: if_splits)

lemma strchr_lf_bound: "strchr_lf b p = Some lf \<Longrightarrow> p \<le> lf \<and> lf < length b"
  by (auto simp: strchr_lf_def dest!: find_lf_bound)

text \<open>
  The loop of \<open>log_vfmt\<close> (lines 102-110) from the position \<open>p\<close> with the length
  \<open>l\<close>: each complete line goes to \<^verbatim>\<open>do_log\<close>. The result is the lines, the
  final position and the final length.
\<close>

function log_lines :: "char list \<Rightarrow> nat \<Rightarrow> int \<Rightarrow> string list \<times> nat \<times> int" where
  "log_lines b p l =
     (case strchr_lf b p of
        None \<Rightarrow> ([], p, l)
      | Some lf \<Rightarrow>
          (case log_lines b (lf + 1) (l - int (lf - p + 1)) of
             (cs, p', l') \<Rightarrow> (take (lf - p + 1) (drop p b) # cs, p', l')))"
  by pat_completeness auto
termination
  by (relation "measure (\<lambda>(b, p, l). length b - p)") (auto dest!: strchr_lf_bound)

declare log_lines.simps [simp del]

text \<open>\<^verbatim>\<open>memmove(buf, p, len)\<close>.\<close>

definition memmove_front :: "char list \<Rightarrow> nat \<Rightarrow> nat \<Rightarrow> char list" where
  "memmove_front b p n = take n (drop p b) @ drop n b"

definition too_large_msg :: "int \<Rightarrow> string" where
  "too_large_msg n = ''Too large log message: '' @ dec (nat n) @ '' bytes'' @ [LF]"

text \<open>
  \<open>log_vfmt\<close> for the formatted message \<open>msg\<close>. The result is what was passed to
  \<^verbatim>\<open>do_log\<close>, with its priority, and the logger afterwards.
\<close>

definition log_vfmt :: "logger \<Rightarrow> int \<Rightarrow> string \<Rightarrow> fault + ((int \<times> string) list \<times> logger)" where
  "log_vfmt lg priority msg =
     (let free_space = int buf_size - len lg in
      if free_space < int MAX_LOG_LEN then Inl AssertFail
      else if len lg < 0 then Inl BufferOverflow
      else
        (let to_write = int (length msg);
             b1 = vsnprintf (buf lg) (nat (len lg)) (nat free_space) msg
         in if to_write \<ge> free_space
            then Inr ([(LOG_ERR, too_large_msg to_write)], lg\<lparr>buf := b1\<rparr>)
            else
              (case log_lines b1 0 (len lg + to_write) of
                 (cs, p, l) \<Rightarrow>
                   Inr (map (Pair priority) cs,
                        \<lparr>buf = (if p \<noteq> 0 \<and> l > 0 then memmove_front b1 p (nat l) else b1),
                         len = l\<rparr>))))"

text \<open>The function \<^verbatim>\<open>_log\<close> of the source, for the formatted message \<open>msg\<close>.\<close>

definition log_msg :: "(nat \<Rightarrow> logger) \<Rightarrow> int \<Rightarrow> string \<Rightarrow> fault + ((int \<times> string) list \<times> (nat \<Rightarrow> logger))" where
  "log_msg loggers priority msg =
     (if priority < 0 \<or> priority > MAX_LOG_PRIORITY then Inr ([], loggers)
      else bind_fault (log_vfmt (loggers (nat priority)) priority msg) (\<lambda>(out, lg).
             Inr (out, loggers(nat priority := lg))))"

text \<open>
  The invariant of a logger: the buffer has its size, the length is not negative,
  and the buffered text holds no 0 byte and no line feed.
\<close>

definition logger_ok :: "logger \<Rightarrow> bool" where
  "logger_ok lg \<longleftrightarrow>
     length (buf lg) = buf_size \<and> 0 \<le> len lg \<and> len lg \<le> int buf_size
     \<and> NUL \<notin> set (buffered lg) \<and> LF \<notin> set (buffered lg)"

text \<open>A complete line: it ends with a line feed and has no other.\<close>

definition complete_line :: "string \<Rightarrow> bool" where
  "complete_line x \<longleftrightarrow> x \<noteq> [] \<and> last x = LF \<and> LF \<notin> set (butlast x)"

subsection \<open>The calls of \<open>destroy_module\<close> in the words of the spec\<close>




subsection \<open>Concrete states for the witnesses\<close>

definition class0 :: mclass where
  "class0 = \<lparr>class_name = ''Src'', def_module_name = None, num_igates = 1, num_ogates = 1,
     init = None, deinit = None, process_batch = Some 100, run_task = Some 101\<rparr>"

definition module0 :: module where
  "module0 = \<lparr>mclass = class0, name = ''src0'',
       tasks = (\<lambda>_. None)(0 := Some 50), igates = [], ogates = []\<rparr>"

definition state0 :: state where
  "state0 = \<lparr>modules = [1 \<mapsto> module0],
     gate_heap = Map.empty, task_heap = [50 \<mapsto> \<lparr>task_m = 1, task_arg = 0\<rparr>], ns = [''src0'' \<mapsto> 1]\<rparr>"

text \<open>Two modules \<open>a\<close> (at 1) and \<open>b\<close> (at 2) of a class with four gates each way, not connected.\<close>

definition class_mid :: mclass where
  "class_mid = \<lparr>class_name = ''Mid'', def_module_name = None, num_igates = 4, num_ogates = 4,
     init = None, deinit = None, process_batch = Some 100, run_task = None\<rparr>"

definition new_module :: "mclass \<Rightarrow> string \<Rightarrow> module" where
  "new_module c n = \<lparr>mclass = c, name = n, tasks = (\<lambda>_. None), igates = [], ogates = []\<rparr>"

definition state_ab :: state where
  "state_ab = \<lparr>modules = [1 \<mapsto> new_module class_mid ''a'', 2 \<mapsto> new_module class_mid ''b''],
     gate_heap = Map.empty, task_heap = Map.empty, ns = [''a'' \<mapsto> 1, ''b'' \<mapsto> 2]\<rparr>"

text \<open>A logger as the program starts with it: the buffer is zeroed and empty.\<close>

definition logger0 :: logger where
  "logger0 = \<lparr>buf = replicate buf_size NUL, len = 0\<rparr>"

text \<open>
  The class of scenario S3, the state with no module, and hooks that do nothing
  (the class has none).
\<close>

definition class_cks :: mclass where
  "class_cks = \<lparr>class_name = ''MyIPChecksum'', def_module_name = None, num_igates = 1,
     num_ogates = 1, init = None, deinit = None, process_batch = Some 100, run_task = None\<rparr>"

definition state_empty :: state where
  "state_empty = \<lparr>modules = Map.empty, gate_heap = Map.empty, task_heap = Map.empty,
     ns = Map.empty\<rparr>"

definition no_init :: "fn_ptr \<Rightarrow> mod_ptr \<Rightarrow> snobj \<Rightarrow> state \<Rightarrow> snobj option \<times> state" where
  "no_init h m a s = (None, s)"

definition no_deinit :: "fn_ptr \<Rightarrow> mod_ptr \<Rightarrow> state \<Rightarrow> state" where
  "no_deinit h m s = s"


section \<open>Properties\<close>

subsection \<open>Task slots\<close>



lemma first_empty_slot_None:
  "first_empty_slot ts i = None \<longleftrightarrow> (\<forall>j. i \<le> j \<and> j < MAX_TASKS_PER_MODULE \<longrightarrow> ts j \<noteq> None)"
proof (induction ts i rule: first_empty_slot.induct)
  case (1 ts i)
  show ?case
  proof (cases "i < MAX_TASKS_PER_MODULE \<and> ts i \<noteq> None")
    case True
    then have "first_empty_slot ts i = first_empty_slot ts (Suc i)"
      by (subst first_empty_slot.simps) (use True in auto)
    moreover have "(\<forall>j. Suc i \<le> j \<and> j < MAX_TASKS_PER_MODULE \<longrightarrow> ts j \<noteq> None)
       \<longleftrightarrow> (\<forall>j. i \<le> j \<and> j < MAX_TASKS_PER_MODULE \<longrightarrow> ts j \<noteq> None)"
      using True by (metis Suc_leI le_eq_less_or_eq Suc_leD)
    ultimately show ?thesis using 1 True by simp
  next
    case False
    then show ?thesis
      by (subst first_empty_slot.simps) auto
  qed
qed

lemma first_empty_slot_Some:
  "first_empty_slot ts i = Some k \<Longrightarrow>
     i \<le> k \<and> k < MAX_TASKS_PER_MODULE \<and> ts k = None \<and> (\<forall>j. i \<le> j \<and> j < k \<longrightarrow> ts j \<noteq> None)"
proof (induction ts i rule: first_empty_slot.induct)
  case (1 ts i)
  show ?case
  proof (cases "i < MAX_TASKS_PER_MODULE \<and> ts i \<noteq> None")
    case True
    then have "first_empty_slot ts i = first_empty_slot ts (Suc i)"
      by (subst first_empty_slot.simps) (use True in auto)
    with 1 True have "Suc i \<le> k \<and> k < MAX_TASKS_PER_MODULE \<and> ts k = None \<and> (\<forall>j. Suc i \<le> j \<and> j < k \<longrightarrow> ts j \<noteq> None)"
      by simp
    then show ?thesis using True
      by (metis Suc_leD Suc_leI le_eq_less_or_eq)
  next
    case False
    with 1(2) show ?thesis
      by (subst (asm) first_empty_slot.simps) (auto split: if_splits)
  qed
qed

lemma slot_of_task_found:
  "i \<le> k \<Longrightarrow> k < MAX_TASKS_PER_MODULE \<Longrightarrow> ts k = Some t \<Longrightarrow>
     (\<forall>j. i \<le> j \<and> j < k \<longrightarrow> ts j \<noteq> Some t) \<Longrightarrow> slot_of_task ts t i = k"
proof (induction ts t i rule: slot_of_task.induct)
  case (1 ts t i)
  show ?case
  proof (cases "i = k")
    case True
    then show ?thesis using 1(3,4) by (subst slot_of_task.simps) simp
  next
    case False
    with 1(2) have lt: "i < k" by simp
    then have "ts i \<noteq> Some t" using 1(5) by simp
    then have "slot_of_task ts t i = slot_of_task ts t (Suc i)"
      using lt 1(3) by (subst slot_of_task.simps) simp
    moreover have "slot_of_task ts t (Suc i) = k"
      using 1 lt \<open>ts i \<noteq> Some t\<close> by (intro 1(1)) auto
    ultimately show ?thesis by simp
  qed
qed



lemma register_task_cases:
  assumes "modules s m = Some M"
  shows "(run_task (mclass M) = None \<or> (\<forall>i<MAX_TASKS_PER_MODULE. tasks M i \<noteq> None) \<or> new_task = None
            \<longrightarrow> register_task s m a new_task = Inr (INVALID_TASK_ID, s))
       \<and> (\<forall>i t. run_task (mclass M) \<noteq> None \<and> i < MAX_TASKS_PER_MODULE \<and> tasks M i = None
                 \<and> (\<forall>j<i. tasks M j \<noteq> None) \<and> new_task = Some t
            \<longrightarrow> i \<noteq> INVALID_TASK_ID
              \<and> register_task s m a new_task =
                  Inr (i, s\<lparr>task_heap := (task_heap s)(t \<mapsto> \<lparr>task_m = m, task_arg = a\<rparr>),
                           modules := (modules s)(m \<mapsto> M\<lparr>tasks := (tasks M)(i := Some t)\<rparr>)\<rparr>))"
proof (intro conjI impI allI)
  assume "run_task (mclass M) = None \<or> (\<forall>i<MAX_TASKS_PER_MODULE. tasks M i \<noteq> None) \<or> new_task = None"
  moreover have "first_empty_slot (tasks M) 0 = None" if "\<forall>i<MAX_TASKS_PER_MODULE. tasks M i \<noteq> None"
    using that by (simp add: first_empty_slot_None)
  ultimately show "register_task s m a new_task = Inr (INVALID_TASK_ID, s)"
    using assms
    by (auto simp: register_task_def task_create_def split: option.splits)
next
  fix i t
  assume h: "run_task (mclass M) \<noteq> None \<and> i < MAX_TASKS_PER_MODULE \<and> tasks M i = None
                 \<and> (\<forall>j<i. tasks M j \<noteq> None) \<and> new_task = Some t"
  then show "i \<noteq> INVALID_TASK_ID"
    by (auto simp: MAX_TASKS_PER_MODULE_def INVALID_TASK_ID_def)
  have "first_empty_slot (tasks M) 0 = Some i"
  proof (cases "first_empty_slot (tasks M) 0")
    case None
    then show ?thesis using h by (auto simp: first_empty_slot_None)
  next
    case (Some k)
    from first_empty_slot_Some[OF Some] h have "k = i"
      by (metis le0 linorder_neqE_nat)
    then show ?thesis using Some by simp
  qed
  then show "register_task s m a new_task =
                  Inr (i, s\<lparr>task_heap := (task_heap s)(t \<mapsto> \<lparr>task_m = m, task_arg = a\<rparr>),
                           modules := (modules s)(m \<mapsto> M\<lparr>tasks := (tasks M)(i := Some t)\<rparr>)\<rparr>)"
    using assms h by (auto simp: register_task_def task_create_def set_module_def)
qed

text \<open>
  Claim C7. \<open>register_task\<close> returns \<^verbatim>\<open>INVALID_TASK_ID\<close> and leaves the state as it
  is when the class has no \<^verbatim>\<open>run_task\<close>, when every slot below
  \<^verbatim>\<open>MAX_TASKS_PER_MODULE\<close> is occupied, or when the task creation fails. Otherwise,
  with \<open>i\<close> the lowest empty slot, it returns \<open>i\<close> (which is not
  \<^verbatim>\<open>INVALID_TASK_ID\<close>), the new task is stored in slot \<open>i\<close> and every other slot
  is as before.
\<close>

theorem register_task_spec:
  assumes "modules s m = Some M"
  shows "(run_task (mclass M) = None \<or> (\<forall>i<MAX_TASKS_PER_MODULE. tasks M i \<noteq> None) \<or> new_task = None
            \<longrightarrow> register_task s m a new_task = Inr (INVALID_TASK_ID, s))
       \<and> (\<forall>i t. run_task (mclass M) \<noteq> None \<and> i < MAX_TASKS_PER_MODULE \<and> tasks M i = None
                 \<and> (\<forall>j<i. tasks M j \<noteq> None) \<and> new_task = Some t
            \<longrightarrow> i \<noteq> INVALID_TASK_ID
              \<and> register_task s m a new_task =
                  Inr (i, s\<lparr>task_heap := (task_heap s)(t \<mapsto> \<lparr>task_m = m, task_arg = a\<rparr>),
                           modules := (modules s)(m \<mapsto> M\<lparr>tasks := (tasks M)(i := Some t)\<rparr>)\<rparr>))"
  using assms by (rule register_task_cases)

text \<open>The witness: slot 0 of the module is taken, so the new task goes to slot 1.\<close>

theorem register_task_spec_witness:
  "modules state0 1 = Some module0
   \<and> register_task state0 1 7 (Some 51) =
       Inr (1, state0\<lparr>task_heap := (task_heap state0)(51 \<mapsto> \<lparr>task_m = 1, task_arg = 7\<rparr>),
                 modules := (modules state0)(1 \<mapsto> module0\<lparr>tasks := (tasks module0)(1 := Some 51)\<rparr>)\<rparr>)
   \<and> register_task state0 1 7 None = Inr (INVALID_TASK_ID, state0)"
proof -
  have M: "modules state0 1 = Some module0" by (simp add: state0_def)
  from register_task_spec[OF M, of "Some 51" 7]
  have "register_task state0 1 7 (Some 51) =
       Inr (1, state0\<lparr>task_heap := (task_heap state0)(51 \<mapsto> \<lparr>task_m = 1, task_arg = 7\<rparr>),
                 modules := (modules state0)(1 \<mapsto> module0\<lparr>tasks := (tasks module0)(1 := Some 51)\<rparr>)\<rparr>)"
    by (simp add: module0_def class0_def MAX_TASKS_PER_MODULE_def)
  moreover from register_task_spec[OF M, of None 7]
  have "register_task state0 1 7 None = Inr (INVALID_TASK_ID, state0)" by simp
  ultimately show ?thesis using M by simp
qed

text \<open>
  Claim C9. \<open>task_to_tid\<close> is a left inverse of \<open>register_task\<close>: when
  \<open>register_task\<close> returns a slot \<open>i\<close> other than \<^verbatim>\<open>INVALID_TASK_ID\<close> for the new
  task \<open>t\<close>, \<open>task_to_tid\<close> of \<open>t\<close> returns \<open>i\<close>, whichever slots were occupied
  before. The task that \<^verbatim>\<open>task_create\<close> returns is a new one: its pointer is not a
  live task, and the slots of the module hold live tasks only (invariant 6 of the data
  model).
\<close>

theorem task_to_tid_register_task:
  assumes reg: "register_task s m a (Some t) = Inr (i, s')"
      and ok: "i \<noteq> INVALID_TASK_ID"
      and fresh: "t \<notin> dom (task_heap s)"
      and live: "\<forall>M j t'. modules s m = Some M \<and> j < MAX_TASKS_PER_MODULE \<and> tasks M j = Some t'
                   \<longrightarrow> t' \<in> dom (task_heap s)"
  shows "task_to_tid s' t = Inr i"
proof -
  from reg obtain M where M: "modules s m = Some M"
    by (auto simp: register_task_def split: option.splits)
  note spec = register_task_cases[OF M, of "Some t" a]
  have nfull: "run_task (mclass M) \<noteq> None" "\<not> (\<forall>i<MAX_TASKS_PER_MODULE. tasks M i \<noteq> None)"
    using spec reg ok by auto
  then obtain k0 where "k0 < MAX_TASKS_PER_MODULE" "tasks M k0 = None" by auto
  define k where "k = (LEAST i. tasks M i = None)"
  have k: "k < MAX_TASKS_PER_MODULE" "tasks M k = None" "\<forall>j<k. tasks M j \<noteq> None"
    unfolding k_def using \<open>tasks M k0 = None\<close> \<open>k0 < MAX_TASKS_PER_MODULE\<close>
    by (meson Least_le le_less_trans, meson LeastI, meson not_less_Least)
  have res: "i = k" "s' = s\<lparr>task_heap := (task_heap s)(t \<mapsto> \<lparr>task_m = m, task_arg = a\<rparr>),
               modules := (modules s)(m \<mapsto> M\<lparr>tasks := (tasks M)(k := Some t)\<rparr>)\<rparr>"
    using spec reg nfull k by auto
  have nt: "\<forall>j. j < MAX_TASKS_PER_MODULE \<longrightarrow> tasks M j \<noteq> Some t"
    using fresh live M by blast
  have "slot_of_task ((tasks M)(k := Some t)) t 0 = k"
    using k nt by (intro slot_of_task_found) auto
  then show ?thesis by (simp add: task_to_tid_def res)
qed

theorem task_to_tid_register_task_witness:
  "register_task state0 1 7 (Some 51) = Inr (1, snd (projr (register_task state0 1 7 (Some 51))))
   \<and> task_to_tid (snd (projr (register_task state0 1 7 (Some 51)))) 51 = Inr 1"
proof -
  have r: "register_task state0 1 7 (Some 51) = Inr (1, snd (projr (register_task state0 1 7 (Some 51))))"
    by (simp add: register_task_def state0_def module0_def class0_def task_create_def set_module_def
        first_empty_slot.simps MAX_TASKS_PER_MODULE_def)
  have "task_to_tid (snd (projr (register_task state0 1 7 (Some 51)))) 51 = Inr 1"
    by (rule task_to_tid_register_task[OF r])
       (auto simp: INVALID_TASK_ID_def state0_def module0_def split: if_splits)
  with r show ?thesis by simp
qed

subsection \<open>Gate arrays and their growth\<close>

lemma grow_size_terminates:
  "0 < n \<Longrightarrow> gate < 32768 \<Longrightarrow> \<exists>k. grow_size n gate = Some k \<and> gate < k \<and> n \<le> k \<and> k \<le> max n (2 * gate)"
proof (induction "Suc gate - n" arbitrary: n rule: less_induct)
  case less
  show ?case
  proof (cases "n \<le> gate")
    case True
    then have nowrap: "(n * 2) mod 65536 = n * 2" using less.prems by simp
    have "\<exists>k. grow_size (n * 2) gate = Some k \<and> gate < k \<and> n * 2 \<le> k \<and> k \<le> max (n * 2) (2 * gate)"
      using less.prems True by (intro less.hyps) auto
    then obtain k where k: "grow_size (n * 2) gate = Some k" "gate < k" "n * 2 \<le> k" "k \<le> max (n * 2) (2 * gate)"
      by blast
    have "grow_size n gate = Some k"
      by (subst grow_size.simps) (simp add: True nowrap k)
    then show ?thesis using k True by auto
  next
    case False
    then have "grow_size n gate = Some n"
      by (subst grow_size.simps) simp
    then show ?thesis using False by auto
  qed
qed

lemma grow_gates_spec:
  assumes "curr_size gs \<le> gate" "gate < MAX_GATES"
  shows "\<exists>n. gate < n \<and> n \<le> MAX_GATES \<and> curr_size gs \<le> n \<and>
     grow_gates gs gate ok = Inr (if ok then (0, gs @ replicate (n - curr_size gs) None) else (- ENOMEM, gs))"
proof -
  define n0 where "n0 = (if curr_size gs \<noteq> 0 then curr_size gs else 1)"
  have "0 < n0" "n0 \<le> max 1 gate" using assms by (auto simp: n0_def)
  moreover have "gate < 32768" using assms by (simp add: MAX_GATES_def)
  ultimately obtain k where k: "grow_size n0 gate = Some k" "gate < k" "n0 \<le> k" "k \<le> max n0 (2 * gate)"
    using grow_size_terminates[of n0 gate] by blast
  define n where "n = (if k > MAX_GATES then MAX_GATES else k)"
  have n: "gate < n" "n \<le> MAX_GATES" "curr_size gs \<le> n"
    using k assms by (auto simp: n_def n0_def split: if_splits)
  have "grow_gates gs gate ok = Inr (if ok then (0, gs @ replicate (n - curr_size gs) None) else (- ENOMEM, gs))"
    unfolding grow_gates_def n0_def[symmetric] k
    using n by (simp add: n_def[symmetric] Let_def) (simp add: curr_size_def)
  then show ?thesis using n by blast
qed


lemma bind_fault_Inr [simp]: "bind_fault (Inr v) k = k v"
  by (simp add: bind_fault_def)

lemma bind_fault_Inl [simp]: "bind_fault (Inl e) k = Inl e"
  by (simp add: bind_fault_def)

text \<open>
  Claim C8. \<open>disconnect_modules\<close> returns \<^verbatim>\<open>-EINVAL\<close> whenever the index is not
  below \<^verbatim>\<open>num_ogates\<close> of the class of \<open>m_prev\<close>; for an index below it whose
  slot is not active it returns 0 and the state is the same.
\<close>

theorem disconnect_modules_inactive:
  assumes "modules s m_prev = Some mp"
  shows "(ogate_idx \<ge> num_ogates (mclass mp) \<longrightarrow> disconnect_modules s m_prev ogate_idx = Inr (- EINVAL, s))
       \<and> (ogate_idx < num_ogates (mclass mp) \<and> \<not> is_active_gate (ogates mp) ogate_idx
            \<longrightarrow> disconnect_modules s m_prev ogate_idx = Inr (0, s))"
  using assms by (simp add: disconnect_modules_def get_module_def)


lemma set_module_same [simp]: "modules s m = Some M \<Longrightarrow> set_module s m M = s"
  by (simp add: set_module_def map_upd_triv)

lemma is_active_gate_pad [simp]:
  "is_active_gate (gs @ replicate k None) i = is_active_gate gs i"
  by (auto simp: is_active_gate_def curr_size_def nth_append)

lemma nth_pad_active:
  "is_active_gate gs i \<Longrightarrow> (gs @ replicate k None) ! i = gs ! i"
  by (auto simp: is_active_gate_def curr_size_def nth_append)

lemma padded_module_refl [simp]: "padded_module M M"
  by (auto simp: padded_module_def intro: exI[of _ 0])

lemma padded_refl [simp]: "padded s s"
  by (auto simp: padded_def option.rel_refl)

lemma padded_module_trans: "padded_module A B \<Longrightarrow> padded_module B C \<Longrightarrow> padded_module A C"
  by (auto simp: padded_module_def replicate_add[symmetric] simp del: replicate_add)

lemma padded_trans: "padded s s1 \<Longrightarrow> padded s1 s2 \<Longrightarrow> padded s s2"
  unfolding padded_def
  apply (intro conjI allI)
     apply simp_all
  subgoal for m
    apply (cases "modules s m"; cases "modules s1 m"; cases "modules s2 m")
           apply (auto dest!: spec[of _ m] intro: padded_module_trans)
    done
  done

lemma padded_ogate_at: "padded s s' \<Longrightarrow> ogate_at s' m i = ogate_at s m i"
  unfolding padded_def ogate_at_def
  apply (cases "modules s m"; cases "modules s' m")
     apply (auto dest!: spec[of _ m] simp: padded_module_def nth_pad_active)
  done

lemma padded_igate_at: "padded s s' \<Longrightarrow> igate_at s' m i = igate_at s m i"
  unfolding padded_def igate_at_def
  apply (cases "modules s m"; cases "modules s' m")
     apply (auto dest!: spec[of _ m] simp: padded_module_def nth_pad_active)
  done

lemma padded_set_ogates:
  "modules s m = Some M \<Longrightarrow> padded s (set_module s m (M\<lparr>ogates := ogates M @ replicate k None\<rparr>))"
  by (auto simp: padded_def set_module_def padded_module_def option.rel_refl intro: exI[of _ 0])

lemma padded_set_igates:
  "modules s m = Some M \<Longrightarrow> padded s (set_module s m (M\<lparr>igates := igates M @ replicate k None\<rparr>))"
  by (auto simp: padded_def set_module_def padded_module_def option.rel_refl intro: exI[of _ 0])

lemma connect_grow_ogates_spec:
  assumes "modules s m = Some mp" "oi < MAX_GATES"
  shows "\<exists>s1 M1. connect_grow_ogates s m oi ok =
            Inr (if curr_size (ogates mp) \<le> oi \<and> \<not> ok then - ENOMEM else 0, s1)
          \<and> padded s s1 \<and> modules s1 m = Some M1 \<and> igates M1 = igates mp
          \<and> (\<not> (curr_size (ogates mp) \<le> oi \<and> \<not> ok) \<longrightarrow> oi < curr_size (ogates M1))"
proof (cases "curr_size (ogates mp) \<le> oi")
  case False
  then show ?thesis using assms
    by (simp add: connect_grow_ogates_def get_module_def)
next
  case True
  from grow_gates_spec[OF True assms(2), of ok] obtain n where n: "oi < n" "n \<le> MAX_GATES" "curr_size (ogates mp) \<le> n"
    "grow_gates (ogates mp) oi ok = Inr (if ok then (0, ogates mp @ replicate (n - curr_size (ogates mp)) None) else (- ENOMEM, ogates mp))"
    by blast
  show ?thesis
  proof (cases ok)
    case True
    then show ?thesis using assms n \<open>curr_size (ogates mp) \<le> oi\<close>
      by (auto simp: connect_grow_ogates_def get_module_def padded_set_ogates)
         (auto simp: set_module_def curr_size_def)
  next
    case False
    then show ?thesis using assms n \<open>curr_size (ogates mp) \<le> oi\<close>
      by (simp add: connect_grow_ogates_def get_module_def)
  qed
qed

theorem disconnect_modules_inactive_witness:
  "modules state0 1 = Some module0
   \<and> disconnect_modules state0 1 1 = Inr (- EINVAL, state0)
   \<and> disconnect_modules state0 1 0 = Inr (0, state0)"
proof -
  have M: "modules state0 1 = Some module0" by (simp add: state0_def)
  from disconnect_modules_inactive[OF M, of 1] disconnect_modules_inactive[OF M, of 0]
  show ?thesis using M
    by (simp add: module0_def class0_def is_active_gate_def curr_size_def)
qed

lemma connect_grow_igates_spec:
  assumes "modules s m = Some mn" "ii < MAX_GATES"
  shows "\<exists>s1 M1. connect_grow_igates s m ii ok =
            Inr (if curr_size (igates mn) \<le> ii \<and> \<not> ok then - ENOMEM else 0, s1)
          \<and> padded s s1 \<and> modules s1 m = Some M1 \<and> ogates M1 = ogates mn
          \<and> (\<not> (curr_size (igates mn) \<le> ii \<and> \<not> ok) \<longrightarrow> ii < curr_size (igates M1))"
proof (cases "curr_size (igates mn) \<le> ii")
  case False
  then show ?thesis using assms
    by (simp add: connect_grow_igates_def get_module_def)
next
  case True
  from grow_gates_spec[OF True assms(2), of ok] obtain n where n: "ii < n" "n \<le> MAX_GATES" "curr_size (igates mn) \<le> n"
    "grow_gates (igates mn) ii ok = Inr (if ok then (0, igates mn @ replicate (n - curr_size (igates mn)) None) else (- ENOMEM, igates mn))"
    by blast
  show ?thesis
  proof (cases ok)
    case True
    then show ?thesis using assms n \<open>curr_size (igates mn) \<le> ii\<close>
      by (auto simp: connect_grow_igates_def get_module_def padded_set_igates)
         (auto simp: set_module_def curr_size_def)
  next
    case False
    then show ?thesis using assms n \<open>curr_size (igates mn) \<le> ii\<close>
      by (simp add: connect_grow_igates_def get_module_def)
  qed
qed

lemma padded_module_at:
  "padded s s' \<Longrightarrow> modules s m = Some M \<Longrightarrow> \<exists>M'. modules s' m = Some M' \<and> padded_module M M'"
  unfolding padded_def
  by (cases "modules s' m") (auto dest!: spec[of _ m])

text \<open>
  The part of \<open>connect_modules\<close> before the allocation of the gates: when the checks
  pass and the arrays could grow, the function goes on with \<open>connect_link\<close> in a state
  that differs by appended \<^verbatim>\<open>NULL\<close> slots only, where both indices are inside
  their arrays.
\<close>

lemma connect_modules_to_link:
  assumes mp: "modules s m_prev = Some mp" and mn: "modules s m_next = Some mn"
      and pb: "process_batch (mclass mn) \<noteq> None"
      and oi: "oi < num_ogates (mclass mp)" "oi < MAX_GATES"
      and ii: "ii < num_igates (mclass mn)" "ii < MAX_GATES"
      and og: "oi < curr_size (ogates mp) \<or> og_ok"
      and na: "\<not> is_active_gate (ogates mp) oi"
      and ig: "ii < curr_size (igates mn) \<or> ig_ok"
  shows "\<exists>s2 P N. connect_modules s m_prev oi m_next ii og_ok ig_ok new_o new_i =
            connect_link s2 m_prev oi m_next ii new_o new_i
          \<and> padded s s2 \<and> modules s2 m_prev = Some P \<and> modules s2 m_next = Some N
          \<and> oi < curr_size (ogates P) \<and> ii < curr_size (igates N)"
proof -
  from connect_grow_ogates_spec[OF mp oi(2), of og_ok] og
  obtain s1 P1 where s1: "connect_grow_ogates s m_prev oi og_ok = Inr (0, s1)" "padded s s1"
      "modules s1 m_prev = Some P1" "oi < curr_size (ogates P1)"
    by (auto simp: not_le split: if_splits)
  from padded_module_at[OF s1(2) mp] s1(3) have P1: "padded_module mp P1" by simp
  then have na1: "\<not> is_active_gate (ogates P1) oi" using na by (auto simp: padded_module_def)
  from padded_module_at[OF s1(2) mn] obtain N1 where N1: "modules s1 m_next = Some N1" "padded_module mn N1"
    by blast
  have ig1: "ii < curr_size (igates N1) \<or> ig_ok"
    using ig N1(2) by (auto simp: padded_module_def curr_size_def)
  from connect_grow_igates_spec[OF N1(1) ii(2), of ig_ok] ig1
  obtain s2 N2 where s2: "connect_grow_igates s1 m_next ii ig_ok = Inr (0, s2)" "padded s1 s2"
      "modules s2 m_next = Some N2" "ii < curr_size (igates N2)"
    by (auto simp: not_le split: if_splits)
  from padded_module_at[OF s2(2) s1(3)] obtain P2 where P2: "modules s2 m_prev = Some P2" "padded_module P1 P2"
    by blast
  have "oi < curr_size (ogates P2)" using s1(4) P2(2) by (auto simp: padded_module_def curr_size_def)
  moreover have "connect_modules s m_prev oi m_next ii og_ok ig_ok new_o new_i =
            connect_link s2 m_prev oi m_next ii new_o new_i"
    using mp mn pb oi ii s1 na1 s2
    by (auto simp: connect_modules_def get_module_def not_le)
  ultimately show ?thesis using padded_trans[OF s1(2) s2(2)] P2 s2 by blast
qed

lemmas connect_link_defs = connect_link_def set_ogate_def alloc_gate_def connect_igate_def get_igate_def
  set_igate_def gate_update_def cdlist_add_tail_def get_module_def set_module_def cdlist_head_init_def
  zero_gate_def free_gate_def

lemmas obs_defs = ogate_at_def igate_at_def is_active_gate_def curr_size_def same_frame_def
  same_frame_module_def

lemma connect_link_existing:
  assumes P: "modules s m_prev = Some P" and N: "modules s m_next = Some N"
      and oi: "oi < curr_size (ogates P)" and ii: "ii < curr_size (igates N)"
      and slot: "igates N ! ii = Some q" "gate_heap s q = Some Q" "q \<noteq> p"
  shows "\<exists>s'. connect_link s m_prev oi m_next ii (Some p) new_i = Inr (0, s')
     \<and> (\<forall>m i. ogate_at s' m i = (if m = m_prev \<and> i = oi then Some p else ogate_at s m i))
     \<and> (\<forall>m i. igate_at s' m i = igate_at s m i)
     \<and> gate_heap s' = (gate_heap s)
          (p \<mapsto> new_ogate_val m_prev oi m_next ii (process_batch (mclass N)) q,
           q \<mapsto> Q\<lparr>in_ogates_upstream := in_ogates_upstream Q @ [p]\<rparr>)
     \<and> same_frame s s'"
  using assms
  apply (cases "m_prev = m_next")
   apply (auto simp: connect_link_defs new_ogate_val_def obs_defs option.rel_refl
      nth_list_update fun_upd_twist intro!: ext)
  done


lemma connect_link_new:
  assumes P: "modules s m_prev = Some P" and N: "modules s m_next = Some N"
      and oi: "oi < curr_size (ogates P)" and ii: "ii < curr_size (igates N)"
      and slot: "igates N ! ii = None" "q \<noteq> p"
  shows "\<exists>s'. connect_link s m_prev oi m_next ii (Some p) (Some q) = Inr (0, s')
     \<and> (\<forall>m i. ogate_at s' m i = (if m = m_prev \<and> i = oi then Some p else ogate_at s m i))
     \<and> (\<forall>m i. igate_at s' m i = (if m = m_next \<and> i = ii then Some q else igate_at s m i))
     \<and> gate_heap s' = (gate_heap s)
          (p \<mapsto> new_ogate_val m_prev oi m_next ii (process_batch (mclass N)) q,
           q \<mapsto> new_igate_val m_next ii (process_batch (mclass N)) p)
     \<and> same_frame s s'"
  using assms
  apply (cases "m_prev = m_next")
   apply (auto simp: connect_link_defs new_ogate_val_def new_igate_val_def obs_defs option.rel_refl
      nth_list_update fun_upd_twist intro!: ext)
  done

text \<open>
  The allocation of the input gate fails: the output gate is freed, and the slot of
  \<open>m_prev\<close> keeps the pointer to it.
\<close>

lemma connect_link_igate_enomem:
  assumes P: "modules s m_prev = Some P" and N: "modules s m_next = Some N"
      and oi: "oi < curr_size (ogates P)" and ii: "ii < curr_size (igates N)"
      and slot: "igates N ! ii = None"
  shows "\<exists>s'. connect_link s m_prev oi m_next ii (Some p) None = Inr (- ENOMEM, s')
     \<and> (\<forall>m i. ogate_at s' m i = (if m = m_prev \<and> i = oi then Some p else ogate_at s m i))
     \<and> (\<forall>m i. igate_at s' m i = igate_at s m i)
     \<and> gate_heap s' = (gate_heap s)(p := None)
     \<and> same_frame s s'"
  using assms
  apply (cases "m_prev = m_next")
   apply (auto simp: connect_link_defs obs_defs option.rel_refl
      nth_list_update fun_upd_twist intro!: ext)
  done

lemma connect_link_ogate_enomem:
  "connect_link s m_prev oi m_next ii None new_i = Inr (- ENOMEM, s)"
  by (simp add: connect_link_def)

lemma connect_link_ret:
  assumes P: "modules s m_prev = Some P" and N: "modules s m_next = Some N"
      and oi: "oi < curr_size (ogates P)" and ii: "ii < curr_size (igates N)"
      and slot: "\<forall>q. igates N ! ii = Some q \<longrightarrow> q \<in> dom (gate_heap s)"
  shows "\<exists>s'. connect_link s m_prev oi m_next ii new_o new_i =
     Inr (if new_o = None then - ENOMEM
          else if igates N ! ii = None \<and> new_i = None then - ENOMEM
          else 0, s')"
  using assms
  apply (cases "m_prev = m_next"; cases new_o; cases new_i; cases "igates N ! ii")
   apply (auto simp: connect_link_defs curr_size_def)
  done

lemma connect_grow_ogates_igates:
  assumes "connect_grow_ogates s m oi ok = Inr (r, s1)" "modules s m' = Some M'"
  shows "\<exists>M1. modules s1 m' = Some M1 \<and> igates M1 = igates M'"
  using assms
  by (auto simp: connect_grow_ogates_def get_module_def set_module_def bind_fault_def
      split: option.splits if_splits sum.splits)

lemma connect_modules_code:
  assumes mp: "modules s m_prev = Some mp" and mn: "modules s m_next = Some mn"
      and live: "\<forall>q. igate_at s m_next ii = Some q \<longrightarrow> q \<in> dom (gate_heap s)"
  shows "\<exists>s'. connect_modules s m_prev oi m_next ii og_ok ig_ok new_o new_i =
     Inr (if process_batch (mclass mn) = None then - EINVAL
          else if oi \<ge> num_ogates (mclass mp) \<or> oi \<ge> MAX_GATES then - EINVAL
          else if ii \<ge> num_igates (mclass mn) \<or> ii \<ge> MAX_GATES then - EINVAL
          else if oi \<ge> curr_size (ogates mp) \<and> \<not> og_ok then - ENOMEM
          else if is_active_gate (ogates mp) oi then - EBUSY
          else if ii \<ge> curr_size (igates mn) \<and> \<not> ig_ok then - ENOMEM
          else if new_o = None then - ENOMEM
          else if \<not> is_active_gate (igates mn) ii \<and> new_i = None then - ENOMEM
          else 0, s')"
proof -
  consider (a) "process_batch (mclass mn) = None"
    | (b) "process_batch (mclass mn) \<noteq> None" "oi \<ge> num_ogates (mclass mp) \<or> oi \<ge> MAX_GATES"
    | (c) "process_batch (mclass mn) \<noteq> None" "oi < num_ogates (mclass mp)" "oi < MAX_GATES"
          "ii \<ge> num_igates (mclass mn) \<or> ii \<ge> MAX_GATES"
    | (d) "process_batch (mclass mn) \<noteq> None" "oi < num_ogates (mclass mp)" "oi < MAX_GATES"
          "ii < num_igates (mclass mn)" "ii < MAX_GATES"
    by linarith
  then show ?thesis
  proof cases
    case a
    then show ?thesis using mp mn by (simp add: connect_modules_def get_module_def)
  next
    case b
    then show ?thesis using mp mn by (auto simp: connect_modules_def get_module_def)
  next
    case c
    then show ?thesis using mp mn by (auto simp: connect_modules_def get_module_def)
  next
    case d
    note chk = d
    show ?thesis
    proof (cases "oi \<ge> curr_size (ogates mp) \<and> \<not> og_ok")
      case True
      from connect_grow_ogates_spec[OF mp chk(3), of og_ok] True
      obtain s1 where "connect_grow_ogates s m_prev oi og_ok = Inr (- ENOMEM, s1)" by auto
      then show ?thesis using mp mn chk True
        by (auto simp: connect_modules_def get_module_def ENOMEM_def)
    next
      case og: False
      from connect_grow_ogates_spec[OF mp chk(3), of og_ok] og
      obtain s1 P1 where s1: "connect_grow_ogates s m_prev oi og_ok = Inr (0, s1)" "padded s s1"
          "modules s1 m_prev = Some P1" "oi < curr_size (ogates P1)"
        by (auto simp: not_le split: if_splits)
      from padded_module_at[OF s1(2) mp] s1(3) have P1: "padded_module mp P1" by simp
      then have act1: "is_active_gate (ogates P1) oi = is_active_gate (ogates mp) oi"
        by (auto simp: padded_module_def)
      from padded_module_at[OF s1(2) mn] obtain N1 where N1: "modules s1 m_next = Some N1" "padded_module mn N1"
        by blast
      show ?thesis
      proof (cases "is_active_gate (ogates mp) oi")
        case True
        then show ?thesis using mp mn chk og s1 act1
          by (auto simp: connect_modules_def get_module_def)
      next
        case na: False
        show ?thesis
        proof (cases "ii \<ge> curr_size (igates mn) \<and> \<not> ig_ok")
          case True
          from connect_grow_ogates_igates[OF s1(1) mn] N1(1)
          have "igates N1 = igates mn" by simp
          with True have T1: "curr_size (igates N1) \<le> ii \<and> \<not> ig_ok" by simp
          from connect_grow_igates_spec[OF N1(1) chk(5), of ig_ok] T1
          obtain s2 where "connect_grow_igates s1 m_next ii ig_ok = Inr (- ENOMEM, s2)" by auto
          then show ?thesis using mp mn chk og s1 act1 na True
            by (auto simp: connect_modules_def get_module_def ENOMEM_def)
        next
          case ig: False
          have og': "oi < curr_size (ogates mp) \<or> og_ok" using og by auto
          have ig': "ii < curr_size (igates mn) \<or> ig_ok" using ig by auto
          from connect_modules_to_link[OF mp mn chk(1) chk(2) chk(3) chk(4) chk(5) og' na ig', of new_o new_i]
          obtain s2 P N where s2: "connect_modules s m_prev oi m_next ii og_ok ig_ok new_o new_i =
                connect_link s2 m_prev oi m_next ii new_o new_i" "padded s s2"
              "modules s2 m_prev = Some P" "modules s2 m_next = Some N"
              "oi < curr_size (ogates P)" "ii < curr_size (igates N)"
            by blast
          have iga: "igate_at s2 m_next ii = igate_at s m_next ii"
            by (rule padded_igate_at[OF s2(2)])
          have slot_eq: "igates N ! ii = (if is_active_gate (igates mn) ii then igates mn ! ii else None)"
            using iga s2(4,6) mn by (auto simp: igate_at_def is_active_gate_def split: if_splits)
          have live2: "\<forall>q. igates N ! ii = Some q \<longrightarrow> q \<in> dom (gate_heap s2)"
            using live slot_eq s2(2) mn by (auto simp: padded_def igate_at_def split: if_splits)
          have none_iff: "igates N ! ii = None \<longleftrightarrow> \<not> is_active_gate (igates mn) ii"
            using slot_eq by (auto simp: is_active_gate_def)
          from connect_link_ret[OF s2(3) s2(4) s2(5) s2(6) live2, of new_o new_i]
          show ?thesis using s2(1) chk og na ig none_iff by auto
        qed
      qed
    qed
  qed
qed


text \<open>
  Claim C4. \<open>connect_modules\<close> returns the first failure of its checks, in the order
  of the claim: \<^verbatim>\<open>-EINVAL\<close> for a class of \<open>m_next\<close> without
  \<^verbatim>\<open>process_batch\<close>, \<^verbatim>\<open>-EINVAL\<close> for an output index outside the class or
  \<^verbatim>\<open>MAX_GATES\<close>, \<^verbatim>\<open>-EINVAL\<close> for such an input index, \<^verbatim>\<open>-ENOMEM\<close> when the
  output array must grow and cannot, \<^verbatim>\<open>-EBUSY\<close> when the output slot is active,
  \<^verbatim>\<open>-ENOMEM\<close> when the input array must grow and cannot; then \<^verbatim>\<open>-ENOMEM\<close> when
  the allocation of the output gate or of a needed input gate fails, and 0 in every
  other case. The function returns (no fault, no endless loop) for all modules that
  exist, given that an active input gate slot of \<open>m_next\<close> points to a live gate.
\<close>

theorem connect_modules_return:
  assumes mp: "modules s m_prev = Some mp" and mn: "modules s m_next = Some mn"
      and live: "\<forall>q. igate_at s m_next ii = Some q \<longrightarrow> q \<in> dom (gate_heap s)"
  shows "\<exists>s'. connect_modules s m_prev oi m_next ii og_ok ig_ok new_o new_i =
     Inr (if process_batch (mclass mn) = None then - EINVAL
          else if oi \<ge> num_ogates (mclass mp) \<or> oi \<ge> MAX_GATES then - EINVAL
          else if ii \<ge> num_igates (mclass mn) \<or> ii \<ge> MAX_GATES then - EINVAL
          else if oi \<ge> curr_size (ogates mp) \<and> \<not> og_ok then - ENOMEM
          else if is_active_gate (ogates mp) oi then - EBUSY
          else if ii \<ge> curr_size (igates mn) \<and> \<not> ig_ok then - ENOMEM
          else if new_o = None then - ENOMEM
          else if \<not> is_active_gate (igates mn) ii \<and> new_i = None then - ENOMEM
          else 0, s')"
  using assms by (rule connect_modules_code)

text \<open>
  The witness: between the two unconnected modules the connection of output gate 2 to
  input gate 0 returns 0, and \<^verbatim>\<open>-ENOMEM\<close> when the output gate cannot be
  allocated.
\<close>

theorem connect_modules_return_witness:
  "modules state_ab 1 = Some (new_module class_mid ''a'')
   \<and> modules state_ab 2 = Some (new_module class_mid ''b'')
   \<and> igate_at state_ab 2 0 = None
   \<and> (\<exists>s'. connect_modules state_ab 1 2 2 0 True True (Some 10) (Some 11) = Inr (0, s'))
   \<and> (\<exists>s'. connect_modules state_ab 1 2 2 0 True True None (Some 11) = Inr (- ENOMEM, s'))"
proof -
  have a: "modules state_ab 1 = Some (new_module class_mid ''a'')"
    and b: "modules state_ab 2 = Some (new_module class_mid ''b'')"
    by (simp_all add: state_ab_def)
  have i: "igate_at state_ab 2 0 = None"
    by (simp add: igate_at_def b new_module_def is_active_gate_def curr_size_def)
  then have live: "\<forall>q. igate_at state_ab 2 0 = Some q \<longrightarrow> q \<in> dom (gate_heap state_ab)" by simp
  from connect_modules_return[OF a b live, of 2 True True "Some 10" "Some 11"]
  have "\<exists>s'. connect_modules state_ab 1 2 2 0 True True (Some 10) (Some 11) = Inr (0, s')"
    by (simp add: new_module_def class_mid_def MAX_GATES_def is_active_gate_def curr_size_def)
  moreover from connect_modules_return[OF a b live, of 2 True True None "Some 11"]
  have "\<exists>s'. connect_modules state_ab 1 2 2 0 True True None (Some 11) = Inr (- ENOMEM, s')"
    by (simp add: new_module_def class_mid_def MAX_GATES_def is_active_gate_def curr_size_def)
  ultimately show ?thesis using a b i by simp
qed

lemmas disconnect_defs = disconnect_modules_def get_module_def get_gate_def cdlist_del_def
  cdlist_is_empty_def gate_update_def set_igate_def set_ogate_def free_gate_def set_module_def

text \<open>What the invariant says of an active output gate and of its downstream gate.\<close>

lemma graph_ok_ogate:
  assumes ok: "graph_ok s" and p: "ogate_at s m oi = Some p"
  shows "\<exists>M G q Q mn. modules s m = Some M \<and> oi < num_ogates (mclass M)
     \<and> gate_heap s p = Some G \<and> gate_m G = Some m \<and> gate_idx G = oi \<and> out_igate G = Some q
     \<and> gate_arg G = Some mn \<and> igate_at s mn (out_igate_idx G) = Some q
     \<and> gate_heap s q = Some Q \<and> p \<in> set (in_ogates_upstream Q) \<and> distinct (in_ogates_upstream Q)
     \<and> gate_m Q = Some mn \<and> gate_idx Q = out_igate_idx G \<and> q \<noteq> p"
proof -
  from ok p obtain M G q Q mn where 1: "modules s m = Some M" "oi < num_ogates (mclass M)"
     "gate_heap s p = Some G" "gate_m G = Some m" "gate_idx G = oi" "out_igate G = Some q"
     "gate_arg G = Some mn" "igate_at s mn (out_igate_idx G) = Some q"
     "gate_heap s q = Some Q" "p \<in> set (in_ogates_upstream Q)"
    unfolding graph_ok_def ogates_ok_def by blast
  from ok 1(8) have "\<exists>Q. gate_heap s q = Some Q \<and> gate_m Q = Some mn \<and> gate_idx Q = out_igate_idx G
      \<and> distinct (in_ogates_upstream Q)"
    unfolding graph_ok_def igates_ok_def by blast
  with 1(9) have 2: "gate_m Q = Some mn" "gate_idx Q = out_igate_idx G" "distinct (in_ogates_upstream Q)"
    by auto
  from ok p 1(8) have "q \<noteq> p" unfolding graph_ok_def gates_disjoint_def by blast
  with 1 2 show ?thesis by blast
qed

lemma remove1_empty_iff:
  "p \<in> set xs \<Longrightarrow> distinct xs \<Longrightarrow> remove1 p xs = [] \<longleftrightarrow> xs = [p]"
  by (cases xs) (auto split: if_splits)

lemma ogate_at_SomeD:
  "ogate_at s m i = Some p \<Longrightarrow> \<exists>M. modules s m = Some M \<and> i < curr_size (ogates M) \<and> ogates M ! i = Some p"
  by (auto simp: ogate_at_def is_active_gate_def split: option.splits if_splits)

lemma igate_at_SomeD:
  "igate_at s m i = Some p \<Longrightarrow> \<exists>M. modules s m = Some M \<and> i < curr_size (igates M) \<and> igates M ! i = Some p"
  by (auto simp: igate_at_def is_active_gate_def split: option.splits if_splits)

lemma disconnect_active_raw:
  assumes M: "modules s m = Some M" "oi < num_ogates (mclass M)"
             "oi < curr_size (ogates M)" "ogates M ! oi = Some p"
      and G: "gate_heap s p = Some G" "out_igate G = Some q"
      and Q: "gate_heap s q = Some Q" "gate_m Q = Some mn" "q \<noteq> p"
      and N: "modules s mn = Some N" "out_igate_idx G < curr_size (igates N)"
             "igates N ! out_igate_idx G = Some q"
  shows "\<exists>s'. disconnect_modules s m oi = Inr (0, s')
     \<and> (\<forall>m' i. ogate_at s' m' i = (if m' = m \<and> i = oi then None else ogate_at s m' i))
     \<and> (\<forall>m' i. igate_at s' m' i =
           (if remove1 p (in_ogates_upstream Q) = [] \<and> m' = mn \<and> i = out_igate_idx G then None
            else igate_at s m' i))
     \<and> gate_heap s' =
          (if remove1 p (in_ogates_upstream Q) = [] then (gate_heap s)(q := None, p := None)
           else (gate_heap s)(q \<mapsto> Q\<lparr>in_ogates_upstream := remove1 p (in_ogates_upstream Q)\<rparr>, p := None))
     \<and> same_frame s s'"
  using assms
  apply (cases "m = mn"; cases "remove1 p (in_ogates_upstream Q) = []")
   apply (auto simp: disconnect_defs obs_defs option.rel_refl nth_list_update fun_upd_twist
      intro!: ext)
  done

text \<open>
  In a consistent graph \<open>disconnect_modules\<close> of an active output gate returns 0 and
  removes the edge.
\<close>

lemma disconnect_active:
  assumes ok: "graph_ok s" and p: "ogate_at s m oi = Some p"
  shows "\<exists>s'. disconnect_modules s m oi = Inr (0, s') \<and> edge_removed s m oi p s'"
proof -
  from graph_ok_ogate[OF ok p] obtain M G q Q mn where 1: "modules s m = Some M" "oi < num_ogates (mclass M)"
     "gate_heap s p = Some G" "out_igate G = Some q" "igate_at s mn (out_igate_idx G) = Some q"
     "gate_heap s q = Some Q" "gate_m Q = Some mn" "q \<noteq> p"
    by blast
  from ogate_at_SomeD[OF p] 1(1) have 2: "oi < curr_size (ogates M)" "ogates M ! oi = Some p" by auto
  from igate_at_SomeD[OF 1(5)] obtain N where 3: "modules s mn = Some N"
     "out_igate_idx G < curr_size (igates N)" "igates N ! out_igate_idx G = Some q" by blast
  from disconnect_active_raw[OF 1(1) 1(2) 2 1(3) 1(4) 1(6) 1(7) 1(8) 3]
  show ?thesis unfolding edge_removed_def using 1(3,4,6,7) by blast
qed

lemma same_frame_class:
  "same_frame s s' \<Longrightarrow> modules s m = Some M \<Longrightarrow> \<exists>M'. modules s' m = Some M' \<and> mclass M' = mclass M"
  unfolding same_frame_def
  by (cases "modules s' m") (auto dest!: spec[of _ m] simp: same_frame_module_def)

lemma edge_removed_graph_ok:
  assumes ok: "graph_ok s" and p: "ogate_at s m oi = Some p" and rm: "edge_removed s m oi p s'"
  shows "graph_ok s'"
proof -
  from graph_ok_ogate[OF ok p] obtain M G q Q mn where 1: "modules s m = Some M"
     "gate_heap s p = Some G" "gate_m G = Some m" "gate_idx G = oi" "out_igate G = Some q"
     "igate_at s mn (out_igate_idx G) = Some q"
     "gate_heap s q = Some Q" "p \<in> set (in_ogates_upstream Q)" "distinct (in_ogates_upstream Q)"
     "gate_m Q = Some mn" "gate_idx Q = out_igate_idx G" "q \<noteq> p"
    by blast
  define ups where "ups = remove1 p (in_ogates_upstream Q)"
  have ups_set: "set ups = set (in_ogates_upstream Q) - {p}"
    unfolding ups_def using 1(9) by simp
  from rm 1 have
    og: "\<And>m' i. ogate_at s' m' i = (if m' = m \<and> i = oi then None else ogate_at s m' i)" and
    ig: "\<And>m' i. igate_at s' m' i = (if ups = [] \<and> m' = mn \<and> i = out_igate_idx G then None else igate_at s m' i)" and
    hp: "gate_heap s' = (if ups = [] then (gate_heap s)(q := None, p := None)
           else (gate_heap s)(q \<mapsto> Q\<lparr>in_ogates_upstream := ups\<rparr>, p := None))" and
    fr: "same_frame s s'"
    unfolding edge_removed_def ups_def by auto
  have heap_other: "gate_heap s' x = gate_heap s x" if "x \<noteq> p" "x \<noteq> q" for x
    using that by (simp add: hp)
  have disj: "\<And>m i m' i' x. ogate_at s m i = Some x \<Longrightarrow> igate_at s m' i' \<noteq> Some x"
    using ok unfolding graph_ok_def gates_disjoint_def by blast
  have "ogates_ok s'"
    unfolding ogates_ok_def
  proof (intro allI impI)
    fix m' i p'
    assume a: "ogate_at s' m' i = Some p'"
    then have ne: "\<not> (m' = m \<and> i = oi)" and a0: "ogate_at s m' i = Some p'"
      by (auto simp: og split: if_splits)
    from graph_ok_ogate[OF ok a0] obtain M' G' q' Q' mn' where 2: "modules s m' = Some M'"
       "i < num_ogates (mclass M')"
       "gate_heap s p' = Some G'" "gate_m G' = Some m'" "gate_idx G' = i" "out_igate G' = Some q'"
       "gate_arg G' = Some mn'" "igate_at s mn' (out_igate_idx G') = Some q'"
       "gate_heap s q' = Some Q'" "p' \<in> set (in_ogates_upstream Q')"
       "gate_m Q' = Some mn'" "gate_idx Q' = out_igate_idx G'"
      by blast
    have pp: "p' \<noteq> p" using ne 1(2,3,4) 2(3,4,5) by auto
    have pq: "p' \<noteq> q" using disj[OF a0] 1(6) by auto
    have qp: "q' \<noteq> p" using disj[OF p] 2(8) by auto
    have hG: "gate_heap s' p' = Some G'" using heap_other[OF pp pq] 2(3) by simp
    from same_frame_class[OF fr 2(1)] 2(2)
    have c: "\<exists>M. modules s' m' = Some M \<and> i < num_ogates (mclass M)" by auto
    have "\<exists>Q''. igate_at s' mn' (out_igate_idx G') = Some q' \<and> gate_heap s' q' = Some Q''
        \<and> p' \<in> set (in_ogates_upstream Q'')"
    proof (cases "q' = q")
      case True
      then have "p' \<in> set ups" using 2(9,10) 1(7) pp ups_set by auto
      then have ne: "ups \<noteq> []" by auto
      then show ?thesis using True 2(8) \<open>p' \<in> set ups\<close> 1(12) by (simp add: ig hp)
    next
      case False
      then have "gate_heap s' q' = Some Q'" using heap_other[OF qp False] 2(9) by simp
      moreover have "igate_at s' mn' (out_igate_idx G') = Some q'"
        using False 2(8) 1(6) by (auto simp: ig)
      ultimately show ?thesis using 2(10) by simp
    qed
    then show "(\<exists>M. modules s' m' = Some M \<and> i < num_ogates (mclass M)) \<and>
       (\<exists>G q Q mn. gate_heap s' p' = Some G \<and> gate_m G = Some m' \<and> gate_idx G = i \<and>
           out_igate G = Some q \<and> gate_arg G = Some mn \<and> igate_at s' mn (out_igate_idx G) = Some q \<and>
           gate_heap s' q = Some Q \<and> p' \<in> set (in_ogates_upstream Q))"
      using c hG 2(4,5,6,7) by auto
  qed
  moreover have "igates_ok s'"
    unfolding igates_ok_def
  proof (intro allI impI)
    fix m' i q'
    assume a: "igate_at s' m' i = Some q'"
    then have ne: "\<not> (ups = [] \<and> m' = mn \<and> i = out_igate_idx G)" and a0: "igate_at s m' i = Some q'"
      by (auto simp: ig split: if_splits)
    from ok a0 obtain Q' where 2: "gate_heap s q' = Some Q'" "gate_m Q' = Some m'" "gate_idx Q' = i"
       "in_ogates_upstream Q' \<noteq> []" "distinct (in_ogates_upstream Q')"
       "\<forall>x \<in> set (in_ogates_upstream Q').
                \<exists>G mo. gate_heap s x = Some G \<and> out_igate G = Some q' \<and> out_igate_idx G = i
                  \<and> gate_m G = Some mo \<and> ogate_at s mo (gate_idx G) = Some x"
      unfolding graph_ok_def igates_ok_def by blast
    have qp: "q' \<noteq> p" using disj[OF p] a0 by auto
    define Q'' where "Q'' = (if q' = q then Q\<lparr>in_ogates_upstream := ups\<rparr> else Q')"
    have same: "q' = q \<Longrightarrow> Q' = Q \<and> m' = mn \<and> i = out_igate_idx G \<and> ups \<noteq> []"
      using 2(1,2,3) 1(7,10,11) ne by auto
    have hQ: "gate_heap s' q' = Some Q''"
      using same heap_other[OF qp] 2(1) qp 1(12) by (auto simp: Q''_def hp)
    have sub: "set (in_ogates_upstream Q'') \<subseteq> set (in_ogates_upstream Q')" and
         np: "p \<notin> set (in_ogates_upstream Q'')"
      using same ups_set 2(6) 1(2,5) by (auto simp: Q''_def)
    have mem: "\<exists>G mo. gate_heap s' x = Some G \<and> out_igate G = Some q' \<and> out_igate_idx G = i
                  \<and> gate_m G = Some mo \<and> ogate_at s' mo (gate_idx G) = Some x"
      if x: "x \<in> set (in_ogates_upstream Q'')" for x
    proof -
      from x sub 2(6) obtain Gx mo where 3: "gate_heap s x = Some Gx" "out_igate Gx = Some q'"
          "out_igate_idx Gx = i" "gate_m Gx = Some mo" "ogate_at s mo (gate_idx Gx) = Some x"
        by blast
      have xp: "x \<noteq> p" using x np by auto
      have xq: "x \<noteq> q" using disj[OF 3(5)] 1(6) by auto
      have "ogate_at s' mo (gate_idx Gx) = Some x"
        using 3(5) xp p by (auto simp: og)
      then show ?thesis using heap_other[OF xp xq] 3 by auto
    qed
    have "in_ogates_upstream Q'' \<noteq> []" "distinct (in_ogates_upstream Q'')"
      using same 2(4,5) 1(9) by (auto simp: Q''_def ups_def)
    moreover have "gate_m Q'' = Some m'" "gate_idx Q'' = i"
      using same 2(2,3) by (auto simp: Q''_def)
    ultimately show "\<exists>Q. gate_heap s' q' = Some Q \<and> gate_m Q = Some m' \<and> gate_idx Q = i \<and>
           in_ogates_upstream Q \<noteq> [] \<and> distinct (in_ogates_upstream Q) \<and>
           (\<forall>p\<in>set (in_ogates_upstream Q).
               \<exists>G mo. gate_heap s' p = Some G \<and> out_igate G = Some q' \<and> out_igate_idx G = i \<and>
                  gate_m G = Some mo \<and> ogate_at s' mo (gate_idx G) = Some p)"
      using hQ mem by blast
  qed
  moreover have "gates_disjoint s'"
    unfolding gates_disjoint_def
    using disj by (auto simp: og ig split: if_splits)
  ultimately show ?thesis by (simp add: graph_ok_def)
qed

lemma disconnect_modules_graph_ok:
  assumes ok: "graph_ok s" and M: "modules s m = Some M"
  shows "\<exists>r s'. disconnect_modules s m oi = Inr (r, s') \<and> graph_ok s' \<and> same_frame s s'"
proof (cases "ogate_at s m oi")
  case None
  then have "oi \<ge> num_ogates (mclass M) \<or> \<not> is_active_gate (ogates M) oi"
    using M by (auto simp: ogate_at_def is_active_gate_def split: if_splits)
  then have "disconnect_modules s m oi = Inr (- EINVAL, s) \<or> disconnect_modules s m oi = Inr (0, s)"
    using M by (auto simp: disconnect_modules_def get_module_def)
  moreover have "same_frame s s"
    by (auto simp: same_frame_def same_frame_module_def option.rel_refl)
  ultimately show ?thesis using ok by auto
next
  case (Some p)
  from disconnect_active[OF ok Some] obtain s' where
    s': "disconnect_modules s m oi = Inr (0, s')" "edge_removed s m oi p s'" by blast
  from edge_removed_graph_ok[OF ok Some s'(2)] s' show ?thesis
    by (auto simp: edge_removed_def)
qed

lemma connect_link_edge_added:
  assumes P: "modules s m_prev = Some P" and N: "modules s m_next = Some N"
      and oi: "oi < curr_size (ogates P)" and ii: "ii < curr_size (igates N)"
      and slot: "\<forall>q'. igate_at s m_next ii = Some q' \<longrightarrow> q' = q \<and> q \<in> dom (gate_heap s)"
                "igate_at s m_next ii = None \<longrightarrow> new_i = Some q"
      and ne: "q \<noteq> p"
  shows "\<exists>s'. connect_link s m_prev oi m_next ii (Some p) new_i = Inr (0, s')
     \<and> edge_added s m_prev oi m_next ii p q s'"
proof (cases "igate_at s m_next ii")
  case None
  then have "igates N ! ii = None" using N ii
    by (cases "igates N ! ii") (auto simp: igate_at_def is_active_gate_def)
  from connect_link_new[OF P N oi ii this ne] None slot(2) N
  show ?thesis unfolding edge_added_def by auto
next
  case (Some q')
  with slot have q: "q' = q" "q \<in> dom (gate_heap s)" by auto
  then obtain Q where Q: "gate_heap s q = Some Q" by auto
  have "igates N ! ii = Some q" using Some q N ii
    by (auto simp: igate_at_def is_active_gate_def split: if_splits)
  from connect_link_existing[OF P N oi ii this Q ne, of new_i] Some q Q N
  show ?thesis unfolding edge_added_def by auto
qed

lemma graph_ok_igate:
  assumes ok: "graph_ok s" and q: "igate_at s m i = Some q"
  shows "\<exists>Q. gate_heap s q = Some Q \<and> gate_m Q = Some m \<and> gate_idx Q = i
           \<and> in_ogates_upstream Q \<noteq> [] \<and> distinct (in_ogates_upstream Q)
           \<and> (\<forall>p \<in> set (in_ogates_upstream Q).
                \<exists>G mo. gate_heap s p = Some G \<and> out_igate G = Some q \<and> out_igate_idx G = i
                  \<and> gate_m G = Some mo \<and> ogate_at s mo (gate_idx G) = Some p)"
  using ok q unfolding graph_ok_def igates_ok_def by blast

text \<open>
  Adding an edge with fresh gate pointers to a free output slot below the class's
  \<^verbatim>\<open>num_ogates\<close> keeps the graph consistent.
\<close>

lemma edge_added_graph_ok:
  assumes ok: "graph_ok s" and add: "edge_added s m_prev oi m_next ii p q s'"
      and free: "ogate_at s m_prev oi = None"
      and cls: "modules s m_prev = Some P" "oi < num_ogates (mclass P)"
      and fp: "p \<notin> dom (gate_heap s)"
      and fq: "igate_at s m_next ii = None \<longrightarrow> q \<notin> dom (gate_heap s)" "q \<noteq> p"
  shows "graph_ok s'"
proof -
  from add obtain N where N: "modules s m_next = Some N" and
    og: "\<And>m i. ogate_at s' m i = (if m = m_prev \<and> i = oi then Some p else ogate_at s m i)" and
    ig: "\<And>m i. igate_at s' m i = (if m = m_next \<and> i = ii then Some q else igate_at s m i)" and
    hp: "(igate_at s m_next ii = None
              \<and> gate_heap s' = (gate_heap s)
                   (p \<mapsto> new_ogate_val m_prev oi m_next ii (process_batch (mclass N)) q,
                    q \<mapsto> new_igate_val m_next ii (process_batch (mclass N)) p))
            \<or> (\<exists>Q. igate_at s m_next ii = Some q \<and> gate_heap s q = Some Q
                 \<and> gate_heap s' = (gate_heap s)
                     (p \<mapsto> new_ogate_val m_prev oi m_next ii (process_batch (mclass N)) q,
                      q \<mapsto> Q\<lparr>in_ogates_upstream := in_ogates_upstream Q @ [p]\<rparr>))" and
    fr: "same_frame s s'"
    unfolding edge_added_def by auto
  let ?OG = "new_ogate_val m_prev oi m_next ii (process_batch (mclass N)) q"
  have disj: "\<And>m i m' i' x. ogate_at s m i = Some x \<Longrightarrow> igate_at s m' i' \<noteq> Some x"
    using ok unfolding graph_ok_def gates_disjoint_def by blast
  have hp_p: "gate_heap s' p = Some ?OG"
    using hp fq(2) by auto
  have heap_other: "gate_heap s' x = gate_heap s x" if "x \<noteq> p" "x \<noteq> q" for x
    using hp that by auto
  obtain Q' where Q': "gate_heap s' q = Some Q'" "gate_m Q' = Some m_next" "gate_idx Q' = ii"
      "p \<in> set (in_ogates_upstream Q')" "distinct (in_ogates_upstream Q')"
      "\<forall>x \<in> set (in_ogates_upstream Q'). x \<noteq> p \<longrightarrow>
          (\<exists>Q. igate_at s m_next ii = Some q \<and> gate_heap s q = Some Q \<and> x \<in> set (in_ogates_upstream Q))"
  proof (cases "igate_at s m_next ii")
    case None
    with hp have "gate_heap s' q = Some (new_igate_val m_next ii (process_batch (mclass N)) p)" by auto
    then show ?thesis by (intro that[of "new_igate_val m_next ii (process_batch (mclass N)) p"])
        (auto simp: new_igate_val_def)
  next
    case (Some q0)
    with hp obtain Q where Q: "igate_at s m_next ii = Some q" "gate_heap s q = Some Q"
       "gate_heap s' q = Some (Q\<lparr>in_ogates_upstream := in_ogates_upstream Q @ [p]\<rparr>)" by auto
    from graph_ok_igate[OF ok Q(1)] Q(2) have Qok: "gate_m Q = Some m_next" "gate_idx Q = ii"
       "distinct (in_ogates_upstream Q)"
       "\<forall>x \<in> set (in_ogates_upstream Q). x \<in> dom (gate_heap s)" by auto
    then have "p \<notin> set (in_ogates_upstream Q)" using fp by auto
    then show ?thesis using Q Qok
      by (intro that[of "Q\<lparr>in_ogates_upstream := in_ogates_upstream Q @ [p]\<rparr>"]) auto
  qed
  have old_o: "x \<noteq> p \<and> x \<noteq> q" if "ogate_at s m i = Some x" for m i x
  proof -
    from graph_ok_ogate[OF ok that] have d: "x \<in> dom (gate_heap s)" by auto
    then have "x \<noteq> p" using fp by auto
    moreover have "x \<noteq> q"
    proof (cases "igate_at s m_next ii")
      case None then show ?thesis using fq(1) d by auto
    next
      case (Some q0) then show ?thesis using hp disj[OF that, of m_next ii] by auto
    qed
    ultimately show ?thesis by simp
  qed
  have old_i: "x \<noteq> p \<and> (x = q \<longrightarrow> m = m_next \<and> i = ii)" if "igate_at s m i = Some x" for m i x
  proof -
    from graph_ok_igate[OF ok that] obtain Q where Q: "gate_heap s x = Some Q" "gate_m Q = Some m" "gate_idx Q = i"
      by auto
    then have "x \<noteq> p" using fp by auto
    moreover have "m = m_next \<and> i = ii" if "x = q"
    proof (cases "igate_at s m_next ii")
      case None then show ?thesis using fq(1) Q(1) that by auto
    next
      case (Some q0)
      with hp have "igate_at s m_next ii = Some q" by auto
      from graph_ok_igate[OF ok this] Q that show ?thesis by auto
    qed
    ultimately show ?thesis by simp
  qed
  have "ogates_ok s'"
    unfolding ogates_ok_def
  proof (intro allI impI)
    fix m i x
    assume a: "ogate_at s' m i = Some x"
    show "(\<exists>M. modules s' m = Some M \<and> i < num_ogates (mclass M)) \<and>
       (\<exists>G q Q mn. gate_heap s' x = Some G \<and> gate_m G = Some m \<and> gate_idx G = i \<and>
           out_igate G = Some q \<and> gate_arg G = Some mn \<and> igate_at s' mn (out_igate_idx G) = Some q \<and>
           gate_heap s' q = Some Q \<and> x \<in> set (in_ogates_upstream Q))"
    proof (cases "m = m_prev \<and> i = oi")
      case True
      then have x: "x = p" using a by (auto simp: og split: if_splits)
      from same_frame_class[OF fr cls(1)] cls(2) True
      have "\<exists>M. modules s' m = Some M \<and> i < num_ogates (mclass M)" by auto
      moreover have "gate_heap s' x = Some ?OG \<and> gate_m ?OG = Some m \<and> gate_idx ?OG = i \<and>
           out_igate ?OG = Some q \<and> gate_arg ?OG = Some m_next \<and> igate_at s' m_next (out_igate_idx ?OG) = Some q \<and>
           gate_heap s' q = Some Q' \<and> x \<in> set (in_ogates_upstream Q')"
        using x hp_p Q' True by (simp add: new_ogate_val_def ig)
      ultimately show ?thesis by blast
    next
      case False
      then have a0: "ogate_at s m i = Some x" using a by (auto simp: og split: if_splits)
      from graph_ok_ogate[OF ok a0] obtain M G q0 Q0 mn where 2: "modules s m = Some M"
         "i < num_ogates (mclass M)"
         "gate_heap s x = Some G" "gate_m G = Some m" "gate_idx G = i" "out_igate G = Some q0"
         "gate_arg G = Some mn" "igate_at s mn (out_igate_idx G) = Some q0"
         "gate_heap s q0 = Some Q0" "x \<in> set (in_ogates_upstream Q0)"
        by blast
      from same_frame_class[OF fr 2(1)] 2(2)
      have c: "\<exists>M. modules s' m = Some M \<and> i < num_ogates (mclass M)" by auto
      have hx: "gate_heap s' x = Some G" using old_o[OF a0] heap_other 2(3) by simp
      have iq: "igate_at s' mn (out_igate_idx G) = Some q0"
        using 2(8) hp by (auto simp: ig)
      have "\<exists>Q. gate_heap s' q0 = Some Q \<and> x \<in> set (in_ogates_upstream Q)"
      proof (cases "q0 = q")
        case True
        then show ?thesis using hp 2(8,9,10) old_i[OF 2(8)] fq(2) by auto
      next
        case False
        then show ?thesis using heap_other[of q0] old_i[OF 2(8)] 2(9,10) by auto
      qed
      then show ?thesis using c hx iq 2(4,5,6,7) by blast
    qed
  qed
  moreover have "igates_ok s'"
    unfolding igates_ok_def
  proof (intro allI impI)
    fix m i x
    assume a: "igate_at s' m i = Some x"
    have new_mem: "\<exists>G mo. gate_heap s' p = Some G \<and> out_igate G = Some q \<and> out_igate_idx G = ii
                  \<and> gate_m G = Some mo \<and> ogate_at s' mo (gate_idx G) = Some p"
      using hp_p by (auto simp: new_ogate_val_def og)
    have old_mem: "\<exists>G mo. gate_heap s' y = Some G \<and> out_igate G = Some x' \<and> out_igate_idx G = i'
                  \<and> gate_m G = Some mo \<and> ogate_at s' mo (gate_idx G) = Some y"
      if "gate_heap s y = Some G" "out_igate G = Some x'" "out_igate_idx G = i'"
         "gate_m G = Some mo" "ogate_at s mo (gate_idx G) = Some y" for y G mo x' i'
    proof -
      have "ogate_at s' mo (gate_idx G) = Some y" using that(5) free by (auto simp: og)
      moreover have "gate_heap s' y = Some G" using old_o[OF that(5)] heap_other that(1) by simp
      ultimately show ?thesis using that by blast
    qed
    show "\<exists>Q. gate_heap s' x = Some Q \<and> gate_m Q = Some m \<and> gate_idx Q = i \<and>
           in_ogates_upstream Q \<noteq> [] \<and> distinct (in_ogates_upstream Q) \<and>
           (\<forall>p\<in>set (in_ogates_upstream Q).
               \<exists>G mo. gate_heap s' p = Some G \<and> out_igate G = Some x \<and> out_igate_idx G = i \<and>
                  gate_m G = Some mo \<and> ogate_at s' mo (gate_idx G) = Some p)"
    proof (cases "m = m_next \<and> i = ii")
      case True
      then have x: "x = q" using a by (auto simp: ig split: if_splits)
      have "\<exists>G mo. gate_heap s' y = Some G \<and> out_igate G = Some q \<and> out_igate_idx G = ii
                  \<and> gate_m G = Some mo \<and> ogate_at s' mo (gate_idx G) = Some y"
        if y: "y \<in> set (in_ogates_upstream Q')" for y
      proof (cases "y = p")
        case True then show ?thesis using new_mem by simp
      next
        case False
        with Q'(6) y obtain Q where Q: "igate_at s m_next ii = Some q" "gate_heap s q = Some Q"
           "y \<in> set (in_ogates_upstream Q)" by blast
        from graph_ok_igate[OF ok Q(1)] Q(2,3) obtain G mo where
           "gate_heap s y = Some G" "out_igate G = Some q" "out_igate_idx G = ii"
           "gate_m G = Some mo" "ogate_at s mo (gate_idx G) = Some y" by fastforce
        from old_mem[OF this] show ?thesis .
      qed
      then show ?thesis using x True Q' by fastforce
    next
      case False
      then have a0: "igate_at s m i = Some x" using a by (auto simp: ig split: if_splits)
      from graph_ok_igate[OF ok a0] obtain Q where Q: "gate_heap s x = Some Q" "gate_m Q = Some m"
         "gate_idx Q = i" "in_ogates_upstream Q \<noteq> []" "distinct (in_ogates_upstream Q)"
         "\<forall>p \<in> set (in_ogates_upstream Q).
                \<exists>G mo. gate_heap s p = Some G \<and> out_igate G = Some x \<and> out_igate_idx G = i
                  \<and> gate_m G = Some mo \<and> ogate_at s mo (gate_idx G) = Some p" by blast
      have "gate_heap s' x = Some Q" using old_i[OF a0] False heap_other Q(1) by auto
      moreover have "\<forall>p\<in>set (in_ogates_upstream Q).
               \<exists>G mo. gate_heap s' p = Some G \<and> out_igate G = Some x \<and> out_igate_idx G = i \<and>
                  gate_m G = Some mo \<and> ogate_at s' mo (gate_idx G) = Some p"
        using Q(6) old_mem by blast
      ultimately show ?thesis using Q(2,3,4,5) by blast
    qed
  qed
  moreover have "gates_disjoint s'"
    unfolding gates_disjoint_def
  proof (intro allI impI)
    fix m i m' i' x
    assume a: "ogate_at s' m i = Some x"
    show "igate_at s' m' i' \<noteq> Some x"
    proof
      assume b: "igate_at s' m' i' = Some x"
      show False
      proof (cases "m = m_prev \<and> i = oi")
        case True
        then have "x = p" using a by (auto simp: og split: if_splits)
        then show False using b fq(2) old_i[of m' i' x] by (auto simp: ig split: if_splits)
      next
        case False
        then have a0: "ogate_at s m i = Some x" using a by (auto simp: og split: if_splits)
        then show False using b old_o[OF a0] disj[OF a0, of m' i'] by (auto simp: ig split: if_splits)
      qed
    qed
  qed
  ultimately show ?thesis by (simp add: graph_ok_def)
qed

text \<open>
  The invariant reads the gate slots, the gates and the classes only.
\<close>

lemma graph_ok_cong:
  assumes og: "\<And>m i. ogate_at s' m i = ogate_at s m i"
      and ig: "\<And>m i. igate_at s' m i = igate_at s m i"
      and hp: "gate_heap s' = gate_heap s"
      and cl: "\<And>m. map_option mclass (modules s' m) = map_option mclass (modules s m)"
  shows "graph_ok s' = graph_ok s"
proof -
  have c: "(\<exists>M. modules s' m = Some M \<and> i < num_ogates (mclass M))
         = (\<exists>M. modules s m = Some M \<and> i < num_ogates (mclass M))" for m i
    using cl[of m] by (cases "modules s m"; cases "modules s' m") auto
  show ?thesis
    unfolding graph_ok_def ogates_ok_def igates_ok_def gates_disjoint_def og ig hp c ..
qed

lemma padded_class:
  "padded s s' \<Longrightarrow> map_option mclass (modules s' m) = map_option mclass (modules s m)"
  unfolding padded_def
  by (cases "modules s m"; cases "modules s' m") (auto dest!: spec[of _ m] simp: padded_module_def)

lemma padded_graph_ok: "padded s s' \<Longrightarrow> graph_ok s' = graph_ok s"
  by (rule graph_ok_cong) (auto simp: padded_ogate_at padded_igate_at padded_class padded_def)

lemma errno_nonzero [simp]: "EINVAL \<noteq> 0" "ENOMEM \<noteq> 0" "EBUSY \<noteq> 0" "EEXIST \<noteq> 0"
  by (simp_all add: EINVAL_def ENOMEM_def EBUSY_def EEXIST_def)

text \<open>
  A successful \<open>connect_modules\<close> in a consistent graph, with gates allocated at
  pointers that are not in use: the arrays are padded, the edge is added, and the
  graph is consistent again.
\<close>

lemma connect_modules_success:
  assumes ok: "graph_ok s"
      and r: "connect_modules s m_prev oi m_next ii og_ok ig_ok (Some p) new_i = Inr (0, s')"
      and fp: "p \<notin> dom (gate_heap s)"
      and fq: "\<forall>q. new_i = Some q \<longrightarrow> q \<notin> dom (gate_heap s) \<and> q \<noteq> p"
  shows "\<exists>s2 q. padded s s2 \<and> ogate_at s m_prev oi = None
           \<and> (igate_at s m_next ii = None \<longrightarrow> new_i = Some q)
           \<and> edge_added s2 m_prev oi m_next ii p q s' \<and> graph_ok s'"
proof -
  from r obtain mp mn where mp: "modules s m_prev = Some mp" and mn: "modules s m_next = Some mn"
    by (auto simp: connect_modules_def get_module_def bind_fault_def split: option.splits)
  have live: "\<forall>q. igate_at s m_next ii = Some q \<longrightarrow> q \<in> dom (gate_heap s)"
    using graph_ok_igate[OF ok] by fastforce
  from connect_modules_code[OF mp mn live, of oi og_ok ig_ok "Some p" new_i] r
  have chk: "process_batch (mclass mn) \<noteq> None" "oi < num_ogates (mclass mp)" "oi < MAX_GATES"
      "ii < num_igates (mclass mn)" "ii < MAX_GATES" "oi < curr_size (ogates mp) \<or> og_ok"
      "\<not> is_active_gate (ogates mp) oi" "ii < curr_size (igates mn) \<or> ig_ok"
      "is_active_gate (igates mn) ii \<or> new_i \<noteq> None"
    by (auto split: if_splits)
  from connect_modules_to_link[OF mp mn chk(1) chk(2) chk(3) chk(4) chk(5) chk(6) chk(7) chk(8), of "Some p" new_i]
  obtain s2 P N where s2: "connect_modules s m_prev oi m_next ii og_ok ig_ok (Some p) new_i =
            connect_link s2 m_prev oi m_next ii (Some p) new_i"
      "padded s s2" "modules s2 m_prev = Some P" "modules s2 m_next = Some N"
      "oi < curr_size (ogates P)" "ii < curr_size (igates N)"
    by blast
  have ok2: "graph_ok s2" using padded_graph_ok[OF s2(2)] ok by simp
  have hp2: "gate_heap s2 = gate_heap s" using s2(2) by (simp add: padded_def)
  have ig2: "igate_at s2 m_next ii = igate_at s m_next ii" by (rule padded_igate_at[OF s2(2)])
  have og2: "ogate_at s2 m_prev oi = None"
    using padded_ogate_at[OF s2(2), of m_prev oi] mp chk(7) by (simp add: ogate_at_def)
  then have og0: "ogate_at s m_prev oi = None" using padded_ogate_at[OF s2(2), of m_prev oi] by simp
  define q where "q = (case igate_at s m_next ii of Some q' \<Rightarrow> q' | None \<Rightarrow> the new_i)"
  have newq: "igate_at s m_next ii = None \<longrightarrow> new_i = Some q"
    using chk(9) mn by (auto simp: q_def igate_at_def is_active_gate_def)
  have qp: "q \<noteq> p"
  proof (cases "igate_at s m_next ii")
    case None then show ?thesis using newq fq by auto
  next
    case (Some q') then show ?thesis using live fp by (auto simp: q_def)
  qed
  have slot: "\<forall>q'. igate_at s2 m_next ii = Some q' \<longrightarrow> q' = q \<and> q \<in> dom (gate_heap s2)"
    using live by (auto simp: ig2 hp2 q_def)
  from connect_link_edge_added[OF s2(3) s2(4) s2(5) s2(6) slot _ qp, of new_i] newq ig2 r s2(1)
  have add: "edge_added s2 m_prev oi m_next ii p q s'" by auto
  from padded_class[OF s2(2), of m_prev] mp s2(3) have "mclass P = mclass mp" by simp
  then have cls: "oi < num_ogates (mclass P)" using chk(2) by simp
  have "graph_ok s'"
    by (rule edge_added_graph_ok[OF ok2 add og2 s2(3) cls])
       (use fp fq newq qp in \<open>auto simp: hp2 ig2\<close>)
  then show ?thesis using s2(2) og0 newq add
    by (intro exI[of _ s2] exI[of _ q]) simp
qed

lemma same_frame_trans: "same_frame s s1 \<Longrightarrow> same_frame s1 s2 \<Longrightarrow> same_frame s s2"
  unfolding same_frame_def
  apply (intro conjI allI)
    apply simp_all
  subgoal for m
    apply (cases "modules s m"; cases "modules s1 m"; cases "modules s2 m")
           apply (auto dest!: spec[of _ m] simp: same_frame_module_def)
    done
  done

lemma gates_eq_by_slots:
  assumes len: "curr_size gs' = curr_size gs"
      and act: "\<And>i. (if is_active_gate gs' i then gs' ! i else None) = (if is_active_gate gs i then gs ! i else None)"
  shows "gs' = gs"
proof (rule nth_equalityI)
  show "length gs' = length gs" using len by (simp add: curr_size_def)
next
  fix i assume "i < length gs'"
  then show "gs' ! i = gs ! i"
    using act[of i] len by (auto simp: is_active_gate_def curr_size_def split: if_splits)
qed

text \<open>
  Two states with the same frame, the same gate slots and the same gates are equal.
\<close>

lemma state_eq_by_obs:
  assumes fr: "same_frame s s'"
      and og: "\<And>m i. ogate_at s' m i = ogate_at s m i"
      and ig: "\<And>m i. igate_at s' m i = igate_at s m i"
      and hp: "gate_heap s' = gate_heap s"
  shows "s' = s"
proof -
  have "modules s' m = modules s m" for m
  proof (cases "modules s m")
    case None
    then show ?thesis using fr unfolding same_frame_def
      by (cases "modules s' m") (auto dest!: spec[of _ m])
  next
    case (Some M)
    with fr obtain M' where M': "modules s' m = Some M'" "same_frame_module M M'"
      unfolding same_frame_def by (cases "modules s' m") (auto dest!: spec[of _ m])
    have "ogates M' = ogates M"
      using og[of m] M' Some by (intro gates_eq_by_slots) (auto simp: ogate_at_def same_frame_module_def)
    moreover have "igates M' = igates M"
      using ig[of m] M' Some by (intro gates_eq_by_slots) (auto simp: igate_at_def same_frame_module_def)
    ultimately have "M' = M" using M'(2) by (auto simp: same_frame_module_def)
    then show ?thesis using M' Some by simp
  qed
  then have "modules s' = modules s" by (rule ext)
  then show ?thesis using fr hp by (auto simp: same_frame_def)
qed

text \<open>
  Claim C2. In a consistent graph, a successful \<open>connect_modules s a i b j\<close> (its
  gates allocated at pointers not in use) followed by \<open>disconnect_modules\<close> of
  \<open>(a, i)\<close> returns 0 and restores the graph: every output and input gate slot of
  every module holds what it held before the connect (the same slots are active,
  with the same gates), the store of gates is the one before the connect, so no
  input gate created by the connect remains on \<open>b\<close>, and the whole state differs
  from the one before only by the \<^verbatim>\<open>NULL\<close> slots that \<open>grow_gates\<close> appended.
\<close>

theorem connect_disconnect_restores:
  assumes ok: "graph_ok s"
      and r: "connect_modules s a i b j og_ok ig_ok new_o new_i = Inr (0, s1)"
      and fp: "\<forall>p. new_o = Some p \<longrightarrow> p \<notin> dom (gate_heap s)"
      and fq: "\<forall>q. new_i = Some q \<longrightarrow> q \<notin> dom (gate_heap s) \<and> new_o \<noteq> Some q"
  shows "\<exists>s2. disconnect_modules s1 a i = Inr (0, s2) \<and> padded s s2
     \<and> (\<forall>m k. ogate_at s2 m k = ogate_at s m k) \<and> (\<forall>m k. igate_at s2 m k = igate_at s m k)
     \<and> gate_heap s2 = gate_heap s"
proof -
  from r obtain mp mn where mp: "modules s a = Some mp" and mn: "modules s b = Some mn"
    by (auto simp: connect_modules_def get_module_def bind_fault_def split: option.splits)
  have live: "\<forall>q. igate_at s b j = Some q \<longrightarrow> q \<in> dom (gate_heap s)"
    using graph_ok_igate[OF ok] by fastforce
  from connect_modules_code[OF mp mn live, of i og_ok ig_ok new_o new_i] r
  obtain p where p: "new_o = Some p" by (auto split: if_splits)
  have fp': "p \<notin> dom (gate_heap s)" and fq': "\<forall>q. new_i = Some q \<longrightarrow> q \<notin> dom (gate_heap s) \<and> q \<noteq> p"
    using fp fq p by auto
  from connect_modules_success[OF ok r[unfolded p] fp' fq']
  obtain sp q where sp: "padded s sp" "ogate_at s a i = None" "igate_at s b j = None \<longrightarrow> new_i = Some q"
      "edge_added sp a i b j p q s1" "graph_ok s1" by (elim exE conjE)
  have hp_sp: "gate_heap sp = gate_heap s" using sp(1) by (simp add: padded_def)
  have og_sp: "\<And>m k. ogate_at sp m k = ogate_at s m k" by (rule padded_ogate_at[OF sp(1)])
  have ig_sp: "\<And>m k. igate_at sp m k = igate_at s m k" by (rule padded_igate_at[OF sp(1)])
  have okp: "graph_ok sp" using padded_graph_ok[OF sp(1)] ok by simp
  from sp(4) obtain N where N: "modules sp b = Some N" and
    og1: "\<And>m k. ogate_at s1 m k = (if m = a \<and> k = i then Some p else ogate_at sp m k)" and
    ig1: "\<And>m k. igate_at s1 m k = (if m = b \<and> k = j then Some q else igate_at sp m k)" and
    hp1: "(igate_at sp b j = None
              \<and> gate_heap s1 = (gate_heap sp)
                   (p \<mapsto> new_ogate_val a i b j (process_batch (mclass N)) q,
                    q \<mapsto> new_igate_val b j (process_batch (mclass N)) p))
            \<or> (\<exists>Q. igate_at sp b j = Some q \<and> gate_heap sp q = Some Q
                 \<and> gate_heap s1 = (gate_heap sp)
                     (p \<mapsto> new_ogate_val a i b j (process_batch (mclass N)) q,
                      q \<mapsto> Q\<lparr>in_ogates_upstream := in_ogates_upstream Q @ [p]\<rparr>))" and
    fr1: "same_frame sp s1"
    unfolding edge_added_def by auto
  have act: "ogate_at s1 a i = Some p" by (simp add: og1)
  from disconnect_active[OF sp(5) act] obtain s2 where
    s2: "disconnect_modules s1 a i = Inr (0, s2)" "edge_removed s1 a i p s2" by blast
  have qp: "q \<noteq> p"
  proof (cases "igate_at s b j")
    case None then show ?thesis using sp(3) fq' by auto
  next
    case (Some q') then show ?thesis using hp1 live fp' by (auto simp: ig_sp hp_sp)
  qed
  have G: "gate_heap s1 p = Some (new_ogate_val a i b j (process_batch (mclass N)) q)"
    using hp1 qp by auto
  from s2(2) G obtain Q mn' where
    Q: "gate_heap s1 q = Some Q" "gate_m Q = Some mn'" and
    og2: "\<And>m k. ogate_at s2 m k = (if m = a \<and> k = i then None else ogate_at s1 m k)" and
    ig2: "\<And>m k. igate_at s2 m k =
              (if remove1 p (in_ogates_upstream Q) = [] \<and> m = mn' \<and> k = j then None
               else igate_at s1 m k)" and
    hp2: "gate_heap s2 =
             (if remove1 p (in_ogates_upstream Q) = [] then (gate_heap s1)(q := None, p := None)
              else (gate_heap s1)(q \<mapsto> Q\<lparr>in_ogates_upstream := remove1 p (in_ogates_upstream Q)\<rparr>,
                                 p := None))" and
    fr2: "same_frame s1 s2"
    unfolding edge_removed_def by (auto simp: new_ogate_val_def)
  have og: "\<And>m k. ogate_at s2 m k = ogate_at sp m k"
    using sp(2) by (auto simp: og2 og1 og_sp)
  have "(\<forall>m k. igate_at s2 m k = igate_at sp m k) \<and> gate_heap s2 = gate_heap sp"
  proof (cases "igate_at sp b j")
    case None
    with hp1 have h: "gate_heap s1 = (gate_heap sp)
                   (p \<mapsto> new_ogate_val a i b j (process_batch (mclass N)) q,
                    q \<mapsto> new_igate_val b j (process_batch (mclass N)) p)" by auto
    with Q have Qv: "Q = new_igate_val b j (process_batch (mclass N)) p" "mn' = b"
      by (auto simp: new_igate_val_def)
    have fresh_q: "q \<notin> dom (gate_heap sp)" using None sp(3) fq' by (auto simp: ig_sp hp_sp)
    have pn: "gate_heap sp p = None" "gate_heap sp q = None" using fp' fresh_q by (auto simp: hp_sp)
    have "gate_heap s2 x = gate_heap sp x" for x
      using pn qp by (cases "x = p"; cases "x = q") (auto simp: hp2 Qv new_igate_val_def h)
    then have "gate_heap s2 = gate_heap sp" by (rule ext)
    moreover have "\<forall>m k. igate_at s2 m k = igate_at sp m k"
      using None by (auto simp: ig2 ig1 Qv new_igate_val_def)
    ultimately show ?thesis by simp
  next
    case (Some q')
    with hp1 obtain Q0 where Q0: "igate_at sp b j = Some q" "gate_heap sp q = Some Q0"
       "gate_heap s1 = (gate_heap sp)
                     (p \<mapsto> new_ogate_val a i b j (process_batch (mclass N)) q,
                      q \<mapsto> Q0\<lparr>in_ogates_upstream := in_ogates_upstream Q0 @ [p]\<rparr>)" by auto
    with Q have Qv: "Q = Q0\<lparr>in_ogates_upstream := in_ogates_upstream Q0 @ [p]\<rparr>" by auto
    from graph_ok_igate[OF okp Q0(1)] Q0(2) have Q0ok: "in_ogates_upstream Q0 \<noteq> []"
       "\<forall>x \<in> set (in_ogates_upstream Q0). x \<in> dom (gate_heap sp)" by auto
    then have "p \<notin> set (in_ogates_upstream Q0)" using fp' by (auto simp: hp_sp)
    then have rem: "remove1 p (in_ogates_upstream Q0 @ [p]) = in_ogates_upstream Q0"
      by (simp add: remove1_append)
    have pn: "gate_heap sp p = None" using fp' by (auto simp: hp_sp)
    have "gate_heap s2 x = gate_heap sp x" for x
      using pn Q0(2) Q0ok(1) qp by (cases "x = p"; cases "x = q") (auto simp: hp2 rem Qv Q0(3))
    then have "gate_heap s2 = gate_heap sp" by (rule ext)
    moreover have "\<forall>m k. igate_at s2 m k = igate_at sp m k"
      using Q0(1) Q0ok(1) by (auto simp: ig2 ig1 Qv rem)
    ultimately show ?thesis by simp
  qed
  then have ig: "\<And>m k. igate_at s2 m k = igate_at sp m k" and hp: "gate_heap s2 = gate_heap sp"
    by auto
  have "s2 = sp"
    by (rule state_eq_by_obs[OF same_frame_trans[OF fr1 fr2] og ig hp])
  then show ?thesis using s2(1) sp(1) og_sp ig_sp hp_sp by auto
qed


lemma graph_ok_state_ab: "graph_ok state_ab"
proof -
  have "ogate_at state_ab m i = None" for m i
    by (simp add: ogate_at_def state_ab_def new_module_def is_active_gate_def curr_size_def)
  moreover have "igate_at state_ab m i = None" for m i
    by (simp add: igate_at_def state_ab_def new_module_def is_active_gate_def curr_size_def)
  ultimately show ?thesis
    by (simp add: graph_ok_def ogates_ok_def igates_ok_def gates_disjoint_def)
qed

text \<open>
  The witness: the two unconnected modules; output gate 2 of \<open>a\<close> is connected to
  input gate 0 of \<open>b\<close> with new gates at 10 and 11, and disconnected again.
\<close>

theorem connect_disconnect_restores_witness:
  "graph_ok state_ab
   \<and> (\<exists>s1 s2. connect_modules state_ab 1 2 2 0 True True (Some 10) (Some 11) = Inr (0, s1)
         \<and> disconnect_modules s1 1 2 = Inr (0, s2) \<and> padded state_ab s2
         \<and> gate_heap s2 = gate_heap state_ab)"
proof -
  have a: "modules state_ab 1 = Some (new_module class_mid ''a'')"
    and b: "modules state_ab 2 = Some (new_module class_mid ''b'')"
    by (simp_all add: state_ab_def)
  have i: "igate_at state_ab 2 0 = None"
    by (simp add: igate_at_def b new_module_def is_active_gate_def curr_size_def)
  then have live: "\<forall>q. igate_at state_ab 2 0 = Some q \<longrightarrow> q \<in> dom (gate_heap state_ab)" by simp
  from connect_modules_code[OF a b live, of 2 True True "Some 10" "Some 11"]
  obtain s1 where s1: "connect_modules state_ab 1 2 2 0 True True (Some 10) (Some 11) = Inr (0, s1)"
    by (auto simp: new_module_def class_mid_def MAX_GATES_def is_active_gate_def curr_size_def)
  have f1: "\<forall>p. Some (10::nat) = Some p \<longrightarrow> p \<notin> dom (gate_heap state_ab)"
    by (simp add: state_ab_def)
  have f2: "\<forall>q. Some (11::nat) = Some q \<longrightarrow> q \<notin> dom (gate_heap state_ab) \<and> Some (10::nat) \<noteq> Some q"
    by (simp add: state_ab_def)
  from connect_disconnect_restores[OF graph_ok_state_ab s1 f1 f2]
  show ?thesis using s1 graph_ok_state_ab by blast
qed

text \<open>
  The path of \<open>connect_modules\<close> on which the allocation of the input gate fails
  (line 338): the function returns \<^verbatim>\<open>-ENOMEM\<close>, the output gate is freed, and
  the output slot still holds the pointer to it.
\<close>

lemma connect_modules_igate_enomem:
  assumes mp: "modules s m_prev = Some mp" and mn: "modules s m_next = Some mn"
      and pb: "process_batch (mclass mn) \<noteq> None"
      and oi: "oi < num_ogates (mclass mp)" "oi < MAX_GATES"
      and ii: "ii < num_igates (mclass mn)" "ii < MAX_GATES"
      and na: "ogate_at s m_prev oi = None" and ni: "igate_at s m_next ii = None"
  shows "\<exists>s'. connect_modules s m_prev oi m_next ii True True (Some p) None = Inr (- ENOMEM, s')
     \<and> ogate_at s' m_prev oi = Some p \<and> gate_heap s' p = None"
proof -
  have na': "\<not> is_active_gate (ogates mp) oi"
    using na mp by (auto simp: ogate_at_def is_active_gate_def split: if_splits)
  from connect_modules_to_link[OF mp mn pb oi ii _ na', of True True "Some p" None]
  obtain s2 P N where s2: "connect_modules s m_prev oi m_next ii True True (Some p) None =
            connect_link s2 m_prev oi m_next ii (Some p) None"
      "padded s s2" "modules s2 m_prev = Some P" "modules s2 m_next = Some N"
      "oi < curr_size (ogates P)" "ii < curr_size (igates N)"
    by auto
  have "igate_at s2 m_next ii = None" using padded_igate_at[OF s2(2)] ni by simp
  then have slot: "igates N ! ii = None" using s2(4,6)
    by (cases "igates N ! ii") (auto simp: igate_at_def is_active_gate_def)
  from connect_link_igate_enomem[OF s2(3) s2(4) s2(5) s2(6) slot, of p] s2(1)
  show ?thesis by auto
qed

text \<open>A state with an active output slot whose gate is not in the store is not consistent.\<close>

lemma dangling_ogate_not_ok:
  assumes "ogate_at s m i = Some p" "gate_heap s p = None"
  shows "\<not> bidirectional_ok s" "\<not> graph_ok s"
  using assms unfolding bidirectional_ok_def graph_ok_def ogates_ok_def by fastforce+

lemma graph_ok_bidirectional: "graph_ok s \<Longrightarrow> bidirectional_ok s"
  unfolding bidirectional_ok_def graph_ok_def ogates_ok_def igates_ok_def
  by (intro conjI allI impI) (blast, fastforce)

text \<open>
  Claim C1 fails on the code. The two modules \<open>a\<close> and \<open>b\<close> are not connected (a
  consistent graph, \<open>graph_ok_state_ab\<close>). \<open>connect_modules\<close> of output gate 0 of
  \<open>a\<close> to input gate 0 of \<open>b\<close>, where the output gate is allocated at 10 and the
  allocation of the input gate fails, returns \<^verbatim>\<open>-ENOMEM\<close>; afterwards output gate
  0 of \<open>a\<close> is active and its gate is not in the store: it was freed. So the active
  output gate references no active input gate (\<open>dangling_ogate_not_ok\<close>).
\<close>

theorem connect_modules_enomem_breaks_consistency:
  "\<exists>s'. connect_modules state_ab 1 0 2 0 True True (Some 10) None = Inr (- ENOMEM, s')
     \<and> ogate_at s' 1 0 = Some 10 \<and> gate_heap s' 10 = None"
proof -
  have a: "modules state_ab 1 = Some (new_module class_mid ''a'')"
    and b: "modules state_ab 2 = Some (new_module class_mid ''b'')"
    by (simp_all add: state_ab_def)
  have na: "ogate_at state_ab 1 0 = None" and ni: "igate_at state_ab 2 0 = None"
    by (simp_all add: ogate_at_def igate_at_def state_ab_def new_module_def is_active_gate_def curr_size_def)
  show ?thesis
    by (rule connect_modules_igate_enomem[OF a b _ _ _ _ _ na ni])
       (simp_all add: new_module_def class_mid_def MAX_GATES_def)
qed

subsection \<open>Module names and creation\<close>

lemma tolower_underscore: "tolower (CHR ''_'') = CHR ''_''"
  by (simp add: tolower_def isupper_def)

lemma underscores_Cons: "\<exists>r. underscores (a # cs) = a # r"
  by (cases cs) auto

lemma tolower_hd_tl:
  "tolower a # tl (map tolower (underscores (a # cs))) = map tolower (underscores (a # cs))"
  using underscores_Cons[of a cs] by auto

lemma camel_to_snake_Some:
  "camel_to_snake (Some p) cs = tl (map tolower (underscores (p # cs)))"
proof (induction cs arbitrary: p)
  case Nil
  then show ?case by simp
next
  case (Cons c cs)
  then show ?case by (simp add: tolower_underscore tolower_hd_tl)
qed

lemma camel_to_snake_snake_case: "camel_to_snake None n = snake_case n"
  by (cases n) (simp_all add: snake_case_def camel_to_snake_Some tolower_hd_tl)

text \<open>
  The probing loop returns the lowest number whose name is free, given that the
  names it tries fit in \<^verbatim>\<open>MODULE_NAME_LEN\<close> and the number stays an \<^verbatim>\<open>int\<close>.
\<close>

lemma snprintf_int_plain:
  "CHR ''%'' \<notin> set base \<Longrightarrow> snprintf_int (base @ ''%d'') d False = Inr (base @ d)"
proof (induction base)
  case Nil
  then show ?case by simp
next
  case (Cons c cs)
  then have "c \<noteq> CHR ''%''" "snprintf_int (cs @ ''%d'') d False = Inr (cs @ d)" by auto
  then show ?case by (cases cs) simp_all
qed

lemma probe_name_lowest:
  assumes free: "find_module s (base @ dec k) = None"
      and taken: "\<forall>j<k. find_module s (base @ dec j) \<noteq> None"
      and fits: "\<forall>j\<le>k. length (base @ dec j) < MODULE_NAME_LEN"
      and int: "k < 2147483648"
      and pct: "CHR ''%'' \<notin> set base"
  shows "i \<le> k \<Longrightarrow> probe_name s (base @ ''%d'') i = Some (Inr (base @ dec k))"
proof (induction "k - i" arbitrary: i)
  case 0
  then have "i = k" by simp
  then show ?case using free fits
    by (subst probe_name.simps) (simp add: snprintf_int_plain[OF pct] not_le[symmetric])
next
  case (Suc d)
  then have lt: "i < k" by simp
  then have t: "find_module s (base @ dec i) \<noteq> None" and f: "\<not> MODULE_NAME_LEN \<le> length (base @ dec i)"
    using taken fits by (auto simp: not_le)
  have ov: "\<not> i + 1 \<ge> 2147483648" using lt int by simp
  have "probe_name s (base @ ''%d'') (i + 1) = Some (Inr (base @ dec k))"
    using Suc lt by (intro Suc.hyps) auto
  then show ?case using t f ov
    by (subst probe_name.simps) (auto simp: snprintf_int_plain[OF pct])
qed

lemma set_default_name_lowest:
  assumes free: "find_module s (default_base c @ dec k) = None"
      and taken: "\<forall>j<k. find_module s (default_base c @ dec j) \<noteq> None"
      and fits: "\<forall>j\<le>k. length (default_base c @ dec j) < MODULE_NAME_LEN"
      and int: "k < 2147483648"
      and pct: "CHR ''%'' \<notin> set (default_base c)"
      and buf: "def_module_name c = None \<longrightarrow> length (default_base c) + 3 \<le> length (class_name c) + 16"
  shows "set_default_name s c = Inr (default_base c @ dec k)"
proof -
  have "probe_name s (default_base c @ ''%d'') 0 = Some (Inr (default_base c @ dec k))"
    by (rule probe_name_lowest[OF free taken fits int pct]) simp
  then show ?thesis using buf
    by (cases "def_module_name c") (auto simp: set_default_name_def default_base_def Let_def)
qed

text \<open>
  A \<^verbatim>\<open>%\<close> in the name is read by \<^verbatim>\<open>snprintf\<close>: for the class \<^verbatim>\<open>"Foo%"\<close> the format
  is \<^verbatim>\<open>"foo%%d"\<close>, which gives the name \<^verbatim>\<open>"foo%d"\<close> whatever the number.
\<close>

lemma set_default_name_percent:
  "set_default_name state_empty (class_cks\<lparr>class_name := ''Foo%''\<rparr>) = Inr ''foo%d''"
proof -
  have b: "camel_to_snake None ''Foo%'' = ''foo%''" by code_simp
  have "probe_name state_empty ''foo%%d'' 0 = Some (Inr ''foo%d'')"
    by (subst probe_name.simps) (simp add: find_module_def state_empty_def MODULE_NAME_LEN_def)
  moreover have "def_module_name (class_cks\<lparr>class_name := ''Foo%''\<rparr>) = None"
    by (simp add: class_cks_def)
  ultimately show ?thesis
    by (simp add: set_default_name_def b Let_def del: camel_to_snake.simps)
qed

lemma hook_frame_refl [simp]: "hook_frame m s s"
  by (simp add: hook_frame_def option.rel_refl)

lemma hook_frame_trans: "hook_frame m s s1 \<Longrightarrow> hook_frame m s1 s2 \<Longrightarrow> hook_frame m s s2"
  unfolding hook_frame_def
  by (cases "modules s m"; cases "modules s1 m"; cases "modules s2 m") auto

lemma fold_task_destroy_frame:
  fixes f :: "nat \<Rightarrow> state \<Rightarrow> state"
  assumes "\<And>i s. modules (f i s) = modules s \<and> ns (f i s) = ns s \<and> gate_heap (f i s) = gate_heap s"
  shows "modules (fold f xs s) = modules s \<and> ns (fold f xs s) = ns s
     \<and> gate_heap (fold f xs s) = gate_heap s"
  using assms by (induction xs arbitrary: s) auto

lemma destroy_all_tasks_frame:
  assumes "destroy_all_tasks s m = Inr s'"
  shows "hook_frame m s s'"
proof -
  from assms obtain M where M: "modules s m = Some M"
    by (auto simp: destroy_all_tasks_def split: option.splits)
  define f where "f = (\<lambda>i s'. case tasks M i of None \<Rightarrow> s' | Some t \<Rightarrow> task_destroy s' t)"
  have "\<And>i s. modules (f i s) = modules s \<and> ns (f i s) = ns s \<and> gate_heap (f i s) = gate_heap s"
    by (auto simp: f_def task_destroy_def split: option.splits)
  from fold_task_destroy_frame[of f, OF this, of "[0..<MAX_TASKS_PER_MODULE]" s]
  have fr: "modules (fold f [0..<MAX_TASKS_PER_MODULE] s) = modules s"
    "ns (fold f [0..<MAX_TASKS_PER_MODULE] s) = ns s"
    "gate_heap (fold f [0..<MAX_TASKS_PER_MODULE] s) = gate_heap s" by auto
  have "s' = set_module (fold f [0..<MAX_TASKS_PER_MODULE] s) m
                 (M\<lparr>tasks := (\<lambda>i. if i < MAX_TASKS_PER_MODULE then None else tasks M i)\<rparr>)"
    using assms M by (simp add: destroy_all_tasks_def f_def)
  then show ?thesis using fr M
    by (simp add: hook_frame_def set_module_def)
qed

lemma destroy_all_tasks_ok:
  "modules s m = Some M \<Longrightarrow> \<exists>s'. destroy_all_tasks s m = Inr s'"
  by (simp add: destroy_all_tasks_def)





lemma create_init_register_ok:
  assumes M: "modules s m = Some M" and free: "ns s (name M) = None"
      and hook: "init_hook_frame call_init"
      and noerr: "\<forall>h a s2. fst (call_init h m a s2) = None"
  shows "\<exists>s' M'. create_init_register call_init s m c a = Inr (Some m, None, s')
     \<and> modules s' m = Some M' \<and> name M' = name M \<and> mclass M' = mclass M
     \<and> igates M' = igates M \<and> ogates M' = ogates M
     \<and> ns s' = (ns s)(name M \<mapsto> m) \<and> (\<forall>x. x \<noteq> m \<longrightarrow> modules s' x = modules s x)
     \<and> gate_heap s' = gate_heap s"
proof -
  obtain e s3 where hk: "(case init c of None \<Rightarrow> (None, s) | Some h \<Rightarrow> call_init h m a s) = (e, s3)"
    by fastforce
  have e: "e = None"
  proof (cases "init c")
    case None then show ?thesis using hk by simp
  next
    case (Some h)
    then have "e = fst (call_init h m a s)" using hk by simp
    then show ?thesis using noerr by simp
  qed
  have fr: "hook_frame m s s3"
  proof (cases "init c")
    case None then show ?thesis using hk by simp
  next
    case (Some h)
    then have "s3 = snd (call_init h m a s)" using hk by simp
    then show ?thesis using hook by (simp add: init_hook_frame_def)
  qed
  then obtain M3 where M3: "modules s3 m = Some M3" "name M3 = name M" "mclass M3 = mclass M"
      "igates M3 = igates M" "ogates M3 = ogates M"
    using M unfolding hook_frame_def by (cases "modules s3 m") auto
  have s3: "ns s3 = ns s" "gate_heap s3 = gate_heap s" "\<forall>x. x \<noteq> m \<longrightarrow> modules s3 x = modules s x"
    using fr by (auto simp: hook_frame_def)
  have reg: "register_module s3 m = Inr (0, s3\<lparr>ns := (ns s3)(name M \<mapsto> m)\<rparr>)"
    using M3 free s3(1) by (simp add: register_module_def get_module_def ns_insert_def)
  have "create_init_register call_init s m c a = Inr (Some m, None, s3\<lparr>ns := (ns s3)(name M \<mapsto> m)\<rparr>)"
    using hk e reg by (simp add: create_init_register_def)
  then show ?thesis using M3 s3 by simp
qed

text \<open>
  \<open>create_module\<close> without a name, for a class whose \<^verbatim>\<open>init\<close> (if any) returns
  no error: the module gets the default name with the lowest free number and is
  registered under it.
\<close>

lemma create_module_default:
  assumes free: "find_module s (default_base c @ dec k) = None"
      and taken: "\<forall>j<k. find_module s (default_base c @ dec j) \<noteq> None"
      and fits: "\<forall>j\<le>k. length (default_base c @ dec j) < MODULE_NAME_LEN"
      and int: "k < 2147483648"
      and pct: "CHR ''%'' \<notin> set (default_base c)"
      and buf: "def_module_name c = None \<longrightarrow> length (default_base c) + 3 \<le> length (class_name c) + 16"
      and fresh: "modules s m = None"
      and hook: "init_hook_frame call_init"
      and noerr: "\<forall>h a s2. fst (call_init h m a s2) = None"
  shows "\<exists>s' M'. create_module call_init s None c a (Some m) True = Inr (Some m, None, s')
     \<and> modules s' m = Some M' \<and> name M' = default_base c @ dec k \<and> mclass M' = c
     \<and> igates M' = [] \<and> ogates M' = []
     \<and> ns s' = (ns s)(default_base c @ dec k \<mapsto> m)
     \<and> (\<forall>x. x \<noteq> m \<longrightarrow> modules s' x = modules s x)
     \<and> gate_heap s' = gate_heap s"
proof -
  define nm where "nm = default_base c @ dec k"
  define s1 where "s1 = set_module s m (zero_module c)"
  have fm: "find_module s1 = find_module s"
    by (auto simp: s1_def set_module_def find_module_def intro!: ext)
  have sdn: "set_default_name s1 c = Inr nm"
    unfolding nm_def using free taken fits int pct buf
    by (intro set_default_name_lowest) (simp_all add: fm)
  define s2 where "s2 = set_module s1 m ((zero_module c)\<lparr>name := nm\<rparr>)"
  have M1: "modules s1 m = Some (zero_module c)" by (simp add: s1_def set_module_def)
  have unf: "create_module call_init s None c a (Some m) True = create_init_register call_init s2 m c a"
    by (simp add: create_module_def Let_def get_module_def s2_def s1_def
        sdn[unfolded s1_def] M1[unfolded s1_def])
  have M2: "modules s2 m = Some ((zero_module c)\<lparr>name := nm\<rparr>)"
    by (simp add: s2_def set_module_def)
  have s2: "ns s2 = ns s" "gate_heap s2 = gate_heap s" "\<forall>x. x \<noteq> m \<longrightarrow> modules s2 x = modules s x"
    by (simp_all add: s2_def s1_def set_module_def)
  have "ns s2 (name ((zero_module c)\<lparr>name := nm\<rparr>)) = None"
    using free by (simp add: s2 nm_def find_module_def)
  from create_init_register_ok[OF M2 this hook noerr, of c a]
  show ?thesis unfolding unf using s2 by (auto simp: zero_module_def nm_def)
qed

text \<open>\<open>destroy_module\<close> of a module with no \<^verbatim>\<open>deinit\<close> and no gate array.\<close>

lemma destroy_module_no_gates:
  assumes M: "modules s m = Some M" and g: "igates M = []" "ogates M = []"
      and d: "deinit (mclass M) = None"
  shows "\<exists>cs s'. destroy_module call_deinit s m = Inr (cs, s')
     \<and> ns s' = (ns s)(name M := None) \<and> modules s' = (modules s)(m := None)
     \<and> gate_heap s' = gate_heap s"
proof -
  have up: "destroy_upstream s m 0 = Inr ([], s)"
    using M g by (subst destroy_upstream.simps) (simp add: curr_size_def)
  have down: "destroy_downstream s m 0 = Inr ([], s)"
    using M g by (subst destroy_downstream.simps) (simp add: curr_size_def)
  from destroy_all_tasks_ok[OF M] obtain s3 where s3: "destroy_all_tasks s m = Inr s3" by blast
  from destroy_all_tasks_frame[OF s3] M obtain M3 where
    fr: "ns s3 = ns s" "gate_heap s3 = gate_heap s" "\<forall>x. x \<noteq> m \<longrightarrow> modules s3 x = modules s x"
        "modules s3 m = Some M3" "name M3 = name M"
    unfolding hook_frame_def by (cases "modules s3 m") auto
  have "destroy_module call_deinit s m =
     Inr ([Call_destroy_all_tasks m, Call_ns_remove (name M3), Call_rte_free_name m,
                     Call_rte_free_ogates m, Call_rte_free_igates m, Call_rte_free_module m],
          free_module (ns_remove s3 (name M3)) m)"
    using M d up down s3 fr(4) by (simp add: destroy_module_def get_module_def)
  moreover have "modules (free_module (ns_remove s3 (name M3)) m) = (modules s)(m := None)"
    using fr(3) by (auto simp: free_module_def ns_remove_def intro!: ext)
  ultimately show ?thesis using fr
    by (simp add: free_module_def ns_remove_def)
qed

lemma init_hook_frame_no_init: "init_hook_frame no_init"
  by (simp add: init_hook_frame_def no_init_def)




lemma default_base_cks: "default_base class_cks = ''my_ipchecksum''"
proof -
  have "camel_to_snake None ''MyIPChecksum'' = ''my_ipchecksum''" by code_simp
  then show ?thesis by (simp add: default_base_def class_cks_def)
qed

lemma dec_small: "dec 0 = ''0''" "dec 1 = ''1''" "dec 2 = ''2''" "dec (Suc 0) = ''1''"
  by code_simp+

text \<open>
  One null-name \<open>create_module\<close> of the class \<^verbatim>\<open>"MyIPChecksum"\<close> with the module at
  \<open>m\<close>, where \<open>k\<close> is the lowest number whose name is free.
\<close>

lemma create_cks:
  assumes free: "ns s (''my_ipchecksum'' @ dec k) = None"
      and taken: "\<forall>j<k. ns s (''my_ipchecksum'' @ dec j) \<noteq> None"
      and k: "k \<le> 2"
      and fresh: "modules s m = None"
  shows "\<exists>s' M'. create_module no_init s None class_cks (Obj 0) (Some m) True = Inr (Some m, None, s')
     \<and> modules s' m = Some M' \<and> name M' = ''my_ipchecksum'' @ dec k \<and> mclass M' = class_cks
     \<and> igates M' = [] \<and> ogates M' = []
     \<and> ns s' = (ns s)(''my_ipchecksum'' @ dec k \<mapsto> m)
     \<and> (\<forall>x. x \<noteq> m \<longrightarrow> modules s' x = modules s x)
     \<and> gate_heap s' = gate_heap s"
proof -
  have len: "length (''my_ipchecksum'' @ dec j) < MODULE_NAME_LEN" if "j \<le> 2" for j
  proof -
    from that have "j = 0 \<or> j = 1 \<or> j = 2" by auto
    then show ?thesis by (auto simp: dec_small MODULE_NAME_LEN_def)
  qed
  have "\<exists>s' M'. create_module no_init s None class_cks (Obj 0) (Some m) True = Inr (Some m, None, s')
     \<and> modules s' m = Some M' \<and> name M' = default_base class_cks @ dec k \<and> mclass M' = class_cks
     \<and> igates M' = [] \<and> ogates M' = []
     \<and> ns s' = (ns s)(default_base class_cks @ dec k \<mapsto> m)
     \<and> (\<forall>x. x \<noteq> m \<longrightarrow> modules s' x = modules s x)
     \<and> gate_heap s' = gate_heap s"
  proof (rule create_module_default)
    show "find_module s (default_base class_cks @ dec k) = None"
      using free by (simp add: find_module_def default_base_cks)
    show "\<forall>j<k. find_module s (default_base class_cks @ dec j) \<noteq> None"
      using taken by (simp add: find_module_def default_base_cks)
    show "\<forall>j\<le>k. length (default_base class_cks @ dec j) < MODULE_NAME_LEN"
      using len k unfolding default_base_cks by (meson le_trans)
    show "k < 2147483648" using k by simp
    show "CHR ''%'' \<notin> set (default_base class_cks)" by (simp add: default_base_cks)
    show "def_module_name class_cks = None \<longrightarrow>
       length (default_base class_cks) + 3 \<le> length (class_name class_cks) + 16"
      by (simp add: default_base_cks)
    show "modules s m = None" by (rule fresh)
    show "init_hook_frame no_init" by (rule init_hook_frame_no_init)
    show "\<forall>h a s2. fst (no_init h m a s2) = None" by (simp add: no_init_def)
  qed
  then show ?thesis by (simp add: default_base_cks)
qed

lemma create_cks_0:
  assumes "ns s ''my_ipchecksum0'' = None" "modules s m = None"
  shows "\<exists>s' M'. create_module no_init s None class_cks (Obj 0) (Some m) True = Inr (Some m, None, s')
     \<and> modules s' m = Some M' \<and> name M' = ''my_ipchecksum0'' \<and> mclass M' = class_cks
     \<and> igates M' = [] \<and> ogates M' = []
     \<and> ns s' = (ns s)(''my_ipchecksum0'' \<mapsto> m)
     \<and> (\<forall>x. x \<noteq> m \<longrightarrow> modules s' x = modules s x)"
proof -
  have "\<exists>s' M'. create_module no_init s None class_cks (Obj 0) (Some m) True = Inr (Some m, None, s')
     \<and> modules s' m = Some M' \<and> name M' = ''my_ipchecksum'' @ dec 0 \<and> mclass M' = class_cks
     \<and> igates M' = [] \<and> ogates M' = []
     \<and> ns s' = (ns s)(''my_ipchecksum'' @ dec 0 \<mapsto> m)
     \<and> (\<forall>x. x \<noteq> m \<longrightarrow> modules s' x = modules s x)
     \<and> gate_heap s' = gate_heap s"
    using assms by (intro create_cks) (simp_all add: dec_small)
  then show ?thesis unfolding dec_small by (elim exE conjE) simp
qed

lemma create_cks_1:
  assumes "ns s ''my_ipchecksum0'' \<noteq> None" "ns s ''my_ipchecksum1'' = None" "modules s m = None"
  shows "\<exists>s' M'. create_module no_init s None class_cks (Obj 0) (Some m) True = Inr (Some m, None, s')
     \<and> modules s' m = Some M' \<and> name M' = ''my_ipchecksum1'' \<and> mclass M' = class_cks
     \<and> igates M' = [] \<and> ogates M' = []
     \<and> ns s' = (ns s)(''my_ipchecksum1'' \<mapsto> m)
     \<and> (\<forall>x. x \<noteq> m \<longrightarrow> modules s' x = modules s x)"
proof -
  have "\<exists>s' M'. create_module no_init s None class_cks (Obj 0) (Some m) True = Inr (Some m, None, s')
     \<and> modules s' m = Some M' \<and> name M' = ''my_ipchecksum'' @ dec 1 \<and> mclass M' = class_cks
     \<and> igates M' = [] \<and> ogates M' = []
     \<and> ns s' = (ns s)(''my_ipchecksum'' @ dec 1 \<mapsto> m)
     \<and> (\<forall>x. x \<noteq> m \<longrightarrow> modules s' x = modules s x)
     \<and> gate_heap s' = gate_heap s"
    using assms by (intro create_cks) (simp_all add: dec_small)
  then show ?thesis unfolding dec_small by (elim exE conjE) simp
qed

lemma create_cks_2:
  assumes "ns s ''my_ipchecksum0'' \<noteq> None" "ns s ''my_ipchecksum1'' \<noteq> None"
          "ns s ''my_ipchecksum2'' = None" "modules s m = None"
  shows "\<exists>s' M'. create_module no_init s None class_cks (Obj 0) (Some m) True = Inr (Some m, None, s')
     \<and> modules s' m = Some M' \<and> name M' = ''my_ipchecksum2'' \<and> mclass M' = class_cks
     \<and> igates M' = [] \<and> ogates M' = []
     \<and> ns s' = (ns s)(''my_ipchecksum2'' \<mapsto> m)
     \<and> (\<forall>x. x \<noteq> m \<longrightarrow> modules s' x = modules s x)"
proof -
  have t: "\<forall>j<2. ns s (''my_ipchecksum'' @ dec j) \<noteq> None"
  proof (intro allI impI)
    fix j :: nat assume "j < 2"
    then have "j = 0 \<or> j = 1" by auto
    then show "ns s (''my_ipchecksum'' @ dec j) \<noteq> None"
      using assms(1,2) by (auto simp: dec_small)
  qed
  have "\<exists>s' M'. create_module no_init s None class_cks (Obj 0) (Some m) True = Inr (Some m, None, s')
     \<and> modules s' m = Some M' \<and> name M' = ''my_ipchecksum'' @ dec 2 \<and> mclass M' = class_cks
     \<and> igates M' = [] \<and> ogates M' = []
     \<and> ns s' = (ns s)(''my_ipchecksum'' @ dec 2 \<mapsto> m)
     \<and> (\<forall>x. x \<noteq> m \<longrightarrow> modules s' x = modules s x)
     \<and> gate_heap s' = gate_heap s"
    using assms(3,4) t by (intro create_cks) (simp_all add: dec_small)
  then show ?thesis unfolding dec_small by (elim exE conjE) simp
qed

text \<open>
  Scenario S3 on the code: three null-name creates of the class \<^verbatim>\<open>"MyIPChecksum"\<close>
  give the names \<^verbatim>\<open>"my_ipchecksum0"\<close>, \<^verbatim>\<open>"my_ipchecksum1"\<close> and
  \<^verbatim>\<open>"my_ipchecksum2"\<close>; after the second module is destroyed a fourth create gives
  \<^verbatim>\<open>"my_ipchecksum1"\<close> again.
\<close>

lemma scenario_S3:
  "\<exists>s1 s2 s3 cs s4 s5.
      create_module no_init state_empty None class_cks (Obj 0) (Some 1) True = Inr (Some 1, None, s1)
    \<and> map_option name (modules s1 1) = Some ''my_ipchecksum0''
    \<and> create_module no_init s1 None class_cks (Obj 0) (Some 2) True = Inr (Some 2, None, s2)
    \<and> map_option name (modules s2 2) = Some ''my_ipchecksum1''
    \<and> create_module no_init s2 None class_cks (Obj 0) (Some 3) True = Inr (Some 3, None, s3)
    \<and> map_option name (modules s3 3) = Some ''my_ipchecksum2''
    \<and> destroy_module no_deinit s3 2 = Inr (cs, s4)
    \<and> find_module s4 ''my_ipchecksum1'' = None
    \<and> create_module no_init s4 None class_cks (Obj 0) (Some 4) True = Inr (Some 4, None, s5)
    \<and> map_option name (modules s5 4) = Some ''my_ipchecksum1''
    \<and> find_module s5 ''my_ipchecksum0'' = Some 1
    \<and> find_module s5 ''my_ipchecksum1'' = Some 4
    \<and> find_module s5 ''my_ipchecksum2'' = Some 3"
proof -
  have e: "ns state_empty = Map.empty" "modules state_empty = Map.empty"
    by (simp_all add: state_empty_def)
  from create_cks_0[of state_empty 1]
  obtain s1 M1 where s1: "create_module no_init state_empty None class_cks (Obj 0) (Some 1) True = Inr (Some 1, None, s1)"
     "modules s1 1 = Some M1" "name M1 = ''my_ipchecksum0''"
     "ns s1 = [''my_ipchecksum0'' \<mapsto> 1]" "\<forall>x. x \<noteq> 1 \<longrightarrow> modules s1 x = None"
    by (auto simp: e)
  have "ns s1 ''my_ipchecksum0'' \<noteq> None" "ns s1 ''my_ipchecksum1'' = None" "modules s1 2 = None"
    using s1(4,5) by simp_all
  from create_cks_1[OF this]
  obtain s2 M2 where s2: "create_module no_init s1 None class_cks (Obj 0) (Some 2) True = Inr (Some 2, None, s2)"
     "modules s2 2 = Some M2" "name M2 = ''my_ipchecksum1''" "mclass M2 = class_cks"
     "igates M2 = []" "ogates M2 = []"
     "ns s2 = (ns s1)(''my_ipchecksum1'' \<mapsto> 2)"
     "\<forall>x. x \<noteq> 2 \<longrightarrow> modules s2 x = modules s1 x"
    by blast
  have "ns s2 ''my_ipchecksum0'' \<noteq> None" "ns s2 ''my_ipchecksum1'' \<noteq> None"
       "ns s2 ''my_ipchecksum2'' = None" "modules s2 3 = None"
    using s1(4,5) s2(7,8) by simp_all
  from create_cks_2[OF this]
  obtain s3 M3 where s3: "create_module no_init s2 None class_cks (Obj 0) (Some 3) True = Inr (Some 3, None, s3)"
     "modules s3 3 = Some M3" "name M3 = ''my_ipchecksum2''"
     "ns s3 = (ns s2)(''my_ipchecksum2'' \<mapsto> 3)"
     "\<forall>x. x \<noteq> 3 \<longrightarrow> modules s3 x = modules s2 x"
    by blast
  have M2': "modules s3 2 = Some M2" using s3(5) s2(2) by simp
  have "deinit (mclass M2) = None" using s2(4) by (simp add: class_cks_def)
  from destroy_module_no_gates[OF M2' s2(5) s2(6) this, of no_deinit]
  obtain cs s4 where s4: "destroy_module no_deinit s3 2 = Inr (cs, s4)"
     "ns s4 = (ns s3)(''my_ipchecksum1'' := None)"
     "modules s4 = (modules s3)(2 := None)"
    using s2(3) by auto
  have "ns s4 ''my_ipchecksum0'' \<noteq> None" "ns s4 ''my_ipchecksum1'' = None" "modules s4 4 = None"
    using s4(2,3) s3(4,5) s2(7,8) s1(4,5) by simp_all
  from create_cks_1[OF this]
  obtain s5 M5 where s5: "create_module no_init s4 None class_cks (Obj 0) (Some 4) True = Inr (Some 4, None, s5)"
     "modules s5 4 = Some M5" "name M5 = ''my_ipchecksum1''"
     "ns s5 = (ns s4)(''my_ipchecksum1'' \<mapsto> 4)"
    by blast
  have n5: "ns s5 ''my_ipchecksum0'' = Some 1" "ns s5 ''my_ipchecksum1'' = Some 4"
       "ns s5 ''my_ipchecksum2'' = Some 3" "ns s4 ''my_ipchecksum1'' = None"
    using s5(4) s4(2) s3(4) s2(7) s1(4) by simp_all
  show ?thesis
    using s1(1,2,3) s2(1,2,3) s3(1,2,3) s4(1) s5(1,2,3) n5
    by (intro exI[of _ s1] exI[of _ s2] exI[of _ s3] exI[of _ cs] exI[of _ s4] exI[of _ s5])
       (simp add: find_module_def)
qed

text \<open>
  Claim C6 as stated gives the names of scenario S3 as \<^verbatim>\<open>"my_ip_checksum0"\<close>, ...; the code
  puts an underscore only before an uppercase letter that follows a lowercase one, so
  \<^verbatim>\<open>"MyIPChecksum"\<close> becomes \<^verbatim>\<open>"my_ipchecksum"\<close>: the first null-name create registers
  the module as \<^verbatim>\<open>"my_ipchecksum0"\<close>, and no module is called \<^verbatim>\<open>"my_ip_checksum0"\<close>.
\<close>

theorem create_module_cks_first_name:
  "\<exists>s1. create_module no_init state_empty None class_cks (Obj 0) (Some 1) True = Inr (Some 1, None, s1)
     \<and> map_option name (modules s1 1) = Some ''my_ipchecksum0''
     \<and> find_module s1 ''my_ipchecksum0'' = Some 1
     \<and> find_module s1 ''my_ip_checksum0'' = None"
proof -
  have e: "ns state_empty ''my_ipchecksum0'' = None" "modules state_empty 1 = None"
    by (simp_all add: state_empty_def)
  from create_cks_0[OF e]
  obtain s1 M1 where s1: "create_module no_init state_empty None class_cks (Obj 0) (Some 1) True = Inr (Some 1, None, s1)"
     "modules s1 1 = Some M1" "name M1 = ''my_ipchecksum0''"
     "ns s1 = (ns state_empty)(''my_ipchecksum0'' \<mapsto> 1)"
    by blast
  show ?thesis
    using s1 by (intro exI[of _ s1]) (simp add: find_module_def state_empty_def)
qed

text \<open>
  Claim C6, amended. A null-name \<open>create_module\<close> whose module is allocated at an unused
  pointer and whose init hook reports no error registers the module under the base name
  followed by the lowest number \<open>k\<close> whose name is free. The base is the default instance
  name of the class if set, otherwise the class name with an underscore before every
  uppercase letter that follows a lowercase letter and then lowercased. The conditions are
  those under which \<open>set_default_name\<close> is defined: no \<^verbatim>\<open>%\<close> in the base (it is used as a
  format), the converted name and \<^verbatim>\<open>"%d"\<close> fit the \<^verbatim>\<open>alloca\<close> buffer, every probed name
  is shorter than \<^verbatim>\<open>MODULE_NAME_LEN\<close> and \<open>k\<close> is an \<^verbatim>\<open>int\<close>. In scenario S3 the class
  \<^verbatim>\<open>"MyIPChecksum"\<close> gives \<^verbatim>\<open>"my_ipchecksum0"\<close>, \<^verbatim>\<open>"my_ipchecksum1"\<close>,
  \<^verbatim>\<open>"my_ipchecksum2"\<close>, and after the middle module is destroyed a fourth create gives
  \<^verbatim>\<open>"my_ipchecksum1"\<close>.
\<close>

theorem create_module_default_name:
  "(\<forall>s c k m a call_init.
      find_module s (default_base c @ dec k) = None
    \<and> (\<forall>j<k. find_module s (default_base c @ dec j) \<noteq> None)
    \<and> (\<forall>j\<le>k. length (default_base c @ dec j) < MODULE_NAME_LEN)
    \<and> k < 2147483648
    \<and> CHR ''%'' \<notin> set (default_base c)
    \<and> (def_module_name c = None \<longrightarrow> length (default_base c) + 3 \<le> length (class_name c) + 16)
    \<and> modules s m = None
    \<and> init_hook_frame call_init
    \<and> (\<forall>h a s2. fst (call_init h m a s2) = None)
    \<longrightarrow>
      default_base c = (case def_module_name c of Some d \<Rightarrow> d | None \<Rightarrow> snake_case (class_name c))
    \<and> set_default_name s c = Inr (default_base c @ dec k)
    \<and> (\<exists>s'. create_module call_init s None c a (Some m) True = Inr (Some m, None, s')
           \<and> map_option name (modules s' m) = Some (default_base c @ dec k)
           \<and> find_module s' (default_base c @ dec k) = Some m))
 \<and> (\<exists>s1 s2 s3 cs s4 s5.
      create_module no_init state_empty None class_cks (Obj 0) (Some 1) True = Inr (Some 1, None, s1)
    \<and> map_option name (modules s1 1) = Some ''my_ipchecksum0''
    \<and> create_module no_init s1 None class_cks (Obj 0) (Some 2) True = Inr (Some 2, None, s2)
    \<and> map_option name (modules s2 2) = Some ''my_ipchecksum1''
    \<and> create_module no_init s2 None class_cks (Obj 0) (Some 3) True = Inr (Some 3, None, s3)
    \<and> map_option name (modules s3 3) = Some ''my_ipchecksum2''
    \<and> destroy_module no_deinit s3 2 = Inr (cs, s4)
    \<and> find_module s4 ''my_ipchecksum1'' = None
    \<and> create_module no_init s4 None class_cks (Obj 0) (Some 4) True = Inr (Some 4, None, s5)
    \<and> map_option name (modules s5 4) = Some ''my_ipchecksum1''
    \<and> find_module s5 ''my_ipchecksum0'' = Some 1
    \<and> find_module s5 ''my_ipchecksum1'' = Some 4
    \<and> find_module s5 ''my_ipchecksum2'' = Some 3)"
proof (intro conjI allI impI)
  fix s :: state and c k m a and call_init :: "fn_ptr \<Rightarrow> mod_ptr \<Rightarrow> snobj \<Rightarrow> state \<Rightarrow> snobj option \<times> state"
  assume h: "find_module s (default_base c @ dec k) = None
    \<and> (\<forall>j<k. find_module s (default_base c @ dec j) \<noteq> None)
    \<and> (\<forall>j\<le>k. length (default_base c @ dec j) < MODULE_NAME_LEN)
    \<and> k < 2147483648
    \<and> CHR ''%'' \<notin> set (default_base c)
    \<and> (def_module_name c = None \<longrightarrow> length (default_base c) + 3 \<le> length (class_name c) + 16)
    \<and> modules s m = None
    \<and> init_hook_frame call_init
    \<and> (\<forall>h a s2. fst (call_init h m a s2) = None)"
  show "default_base c = (case def_module_name c of Some d \<Rightarrow> d | None \<Rightarrow> snake_case (class_name c))"
    by (simp add: default_base_def camel_to_snake_snake_case split: option.split)
  show "set_default_name s c = Inr (default_base c @ dec k)"
    using h by (intro set_default_name_lowest) simp_all
  have "\<exists>s' M'. create_module call_init s None c a (Some m) True = Inr (Some m, None, s')
     \<and> modules s' m = Some M' \<and> name M' = default_base c @ dec k \<and> mclass M' = c
     \<and> igates M' = [] \<and> ogates M' = []
     \<and> ns s' = (ns s)(default_base c @ dec k \<mapsto> m)
     \<and> (\<forall>x. x \<noteq> m \<longrightarrow> modules s' x = modules s x)
     \<and> gate_heap s' = gate_heap s"
    using h by (intro create_module_default) simp_all
  then obtain s' M' where
    "create_module call_init s None c a (Some m) True = Inr (Some m, None, s')"
    "modules s' m = Some M'" "name M' = default_base c @ dec k"
    "ns s' = (ns s)(default_base c @ dec k \<mapsto> m)"
    by blast
  then show "\<exists>s'. create_module call_init s None c a (Some m) True = Inr (Some m, None, s')
           \<and> map_option name (modules s' m) = Some (default_base c @ dec k)
           \<and> find_module s' (default_base c @ dec k) = Some m"
    by (intro exI[of _ s']) (simp add: find_module_def)
next
  show "\<exists>s1 s2 s3 cs s4 s5.
      create_module no_init state_empty None class_cks (Obj 0) (Some 1) True = Inr (Some 1, None, s1)
    \<and> map_option name (modules s1 1) = Some ''my_ipchecksum0''
    \<and> create_module no_init s1 None class_cks (Obj 0) (Some 2) True = Inr (Some 2, None, s2)
    \<and> map_option name (modules s2 2) = Some ''my_ipchecksum1''
    \<and> create_module no_init s2 None class_cks (Obj 0) (Some 3) True = Inr (Some 3, None, s3)
    \<and> map_option name (modules s3 3) = Some ''my_ipchecksum2''
    \<and> destroy_module no_deinit s3 2 = Inr (cs, s4)
    \<and> find_module s4 ''my_ipchecksum1'' = None
    \<and> create_module no_init s4 None class_cks (Obj 0) (Some 4) True = Inr (Some 4, None, s5)
    \<and> map_option name (modules s5 4) = Some ''my_ipchecksum1''
    \<and> find_module s5 ''my_ipchecksum0'' = Some 1
    \<and> find_module s5 ''my_ipchecksum1'' = Some 4
    \<and> find_module s5 ''my_ipchecksum2'' = Some 3"
    by (rule scenario_S3)
qed

theorem create_module_default_name_witness:
  "set_default_name state_empty class_cks = Inr ''my_ipchecksum0''
   \<and> (\<exists>s'. create_module no_init state_empty None class_cks (Obj 0) (Some 1) True = Inr (Some 1, None, s')
           \<and> map_option name (modules s' 1) = Some ''my_ipchecksum0''
           \<and> find_module s' ''my_ipchecksum0'' = Some 1)"
proof -
  have pre: "find_module state_empty (default_base class_cks @ dec 0) = None
    \<and> (\<forall>j<0. find_module state_empty (default_base class_cks @ dec j) \<noteq> None)
    \<and> (\<forall>j\<le>0. length (default_base class_cks @ dec j) < MODULE_NAME_LEN)
    \<and> (0::nat) < 2147483648
    \<and> CHR ''%'' \<notin> set (default_base class_cks)
    \<and> (def_module_name class_cks = None \<longrightarrow> length (default_base class_cks) + 3 \<le> length (class_name class_cks) + 16)
    \<and> modules state_empty 1 = None
    \<and> init_hook_frame no_init
    \<and> (\<forall>h a s2. fst (no_init h 1 a s2) = None)"
    by (simp add: default_base_cks dec_small find_module_def state_empty_def MODULE_NAME_LEN_def
        init_hook_frame_no_init no_init_def)
  from create_module_default_name
  have "\<forall>s c k m a call_init.
      find_module s (default_base c @ dec k) = None
    \<and> (\<forall>j<k. find_module s (default_base c @ dec j) \<noteq> None)
    \<and> (\<forall>j\<le>k. length (default_base c @ dec j) < MODULE_NAME_LEN)
    \<and> k < 2147483648
    \<and> CHR ''%'' \<notin> set (default_base c)
    \<and> (def_module_name c = None \<longrightarrow> length (default_base c) + 3 \<le> length (class_name c) + 16)
    \<and> modules s m = None
    \<and> init_hook_frame call_init
    \<and> (\<forall>h a s2. fst (call_init h m a s2) = None)
    \<longrightarrow>
      default_base c = (case def_module_name c of Some d \<Rightarrow> d | None \<Rightarrow> snake_case (class_name c))
    \<and> set_default_name s c = Inr (default_base c @ dec k)
    \<and> (\<exists>s'. create_module call_init s None c a (Some m) True = Inr (Some m, None, s')
           \<and> map_option name (modules s' m) = Some (default_base c @ dec k)
           \<and> find_module s' (default_base c @ dec k) = Some m)"
    by (rule conjunct1)
  from this[rule_format, of state_empty class_cks 0 1 no_init "Obj 0", OF pre]
  show ?thesis by (simp add: default_base_cks dec_small)
qed

subsection \<open>\<open>destroy_module\<close>\<close>


lemma same_frame_refl [simp]: "same_frame s s"
  by (auto simp: same_frame_def same_frame_module_def option.rel_refl)





















subsection \<open>The logger\<close>


lemma NUL_neq_LF [simp]: "NUL \<noteq> LF" "LF \<noteq> NUL"
  by (simp_all add: NUL_def LF_def)

lemma find_lf_no_lf:
  "LF \<notin> set c \<Longrightarrow> NUL \<notin> set c \<Longrightarrow> find_lf (c @ NUL # r) = None"
  by (induction c) auto

lemma find_lf_first:
  "LF \<notin> set c \<Longrightarrow> NUL \<notin> set c \<Longrightarrow> find_lf (c @ LF # r) = Some (length c)"
  by (induction c) auto

lemma log_lines_spec:
  "NUL \<notin> set content \<Longrightarrow>
     \<exists>ls r. log_lines (pre @ content @ NUL # rest) (length pre) l =
              (ls, length pre + length (concat ls), l - int (length (concat ls)))
       \<and> concat ls @ r = content \<and> LF \<notin> set r \<and> (\<forall>x \<in> set ls. complete_line x)"
proof (induction "length content" arbitrary: content pre l rule: less_induct)
  case less
  let ?b = "pre @ content @ NUL # rest"
  show ?case
  proof (cases "LF \<in> set content")
    case False
    then have "strchr_lf ?b (length pre) = None"
      using less.prems by (simp add: strchr_lf_def find_lf_no_lf)
    then have "log_lines ?b (length pre) l = ([], length pre, l)"
      by (subst log_lines.simps) simp
    then show ?thesis using False
      by (intro exI[of _ "[]"] exI[of _ content]) simp
  next
    case True
    then obtain c1 c2 where c: "content = c1 @ LF # c2" "LF \<notin> set c1"
      by (meson split_list_first)
    have n1: "NUL \<notin> set c1" and n2: "NUL \<notin> set c2" using less.prems c by auto
    have "find_lf (drop (length pre) ?b) = Some (length c1)"
      using find_lf_first[OF c(2) n1, of "c2 @ NUL # rest"] by (simp add: c)
    then have s: "strchr_lf ?b (length pre) = Some (length pre + length c1)"
      by (simp add: strchr_lf_def)
    have chunk: "take (length pre + length c1 - length pre + 1) (drop (length pre) ?b) = c1 @ [LF]"
      by (simp add: c)
    have "length c2 < length content" by (simp add: c)
    from less.hyps[OF this n2, of "pre @ c1 @ [LF]" "l - int (length c1 + 1)"]
    obtain ls r where rec: "log_lines ?b (length pre + length c1 + 1) (l - int (length c1 + 1)) =
          (ls, length pre + length c1 + 1 + length (concat ls), l - int (length c1 + 1) - int (length (concat ls)))"
        "concat ls @ r = c2" "LF \<notin> set r" "\<forall>x \<in> set ls. complete_line x"
      by (auto simp: c)
    have "log_lines ?b (length pre) l =
           ((c1 @ [LF]) # ls, length pre + length c1 + 1 + length (concat ls),
             l - int (length c1 + 1) - int (length (concat ls)))"
      apply (subst log_lines.simps)
      apply (simp only: s option.case chunk)
      apply (insert rec(1))
      apply simp
      done
    moreover have "complete_line (c1 @ [LF])" using c(2) by (simp add: complete_line_def)
    ultimately show ?thesis using rec(2,3,4) c(1)
      by (intro exI[of _ "(c1 @ [LF]) # ls"] exI[of _ r]) auto
  qed
qed

lemma log_vfmt_fits:
  assumes ok: "logger_ok lg" and msg: "NUL \<notin> set msg"
      and a: "len lg \<le> int MAX_LOG_LEN"
      and fit: "int (length msg) < int buf_size - len lg"
  shows "\<exists>ls lg'. log_vfmt lg priority msg = Inr (map (Pair priority) ls, lg') \<and> logger_ok lg'
     \<and> concat ls @ buffered lg' = buffered lg @ msg \<and> (\<forall>x \<in> set ls. complete_line x)"
proof -
  define n where "n = nat (len lg)"
  have n: "len lg = int n" "n \<le> buf_size" "length (buf lg) = buf_size" "n + length msg < buf_size"
    using ok fit by (auto simp: logger_ok_def n_def)
  define rest where "rest = drop (n + length msg + 1) (buf lg)"
  define b1 where "b1 = vsnprintf (buf lg) (nat (len lg)) (nat (int buf_size - len lg)) msg"
  have fs: "nat (int buf_size - len lg) = buf_size - n" using n(1) by simp
  have mn: "min (length msg) (buf_size - n - 1) = length msg" using n(4) by simp
  have "b1 = take n (buf lg) @ take (length msg) msg @ [NUL] @ drop (n + length msg + 1) (buf lg)"
    unfolding b1_def fs n_def[symmetric] vsnprintf_def Let_def mn using n(4) by simp
  then have b1: "b1 = [] @ (buffered lg @ msg) @ NUL # rest"
    by (simp add: buffered_def rest_def n_def[symmetric])
  have lenb1: "length b1 = buf_size"
    using n by (simp add: b1 buffered_def rest_def n_def[symmetric])
  have nn: "NUL \<notin> set (buffered lg @ msg)" using ok msg by (simp add: logger_ok_def)
  from log_lines_spec[OF nn, of "[]" rest "len lg + int (length msg)"]
  obtain ls r where ls: "log_lines b1 0 (len lg + int (length msg)) =
        (ls, length (concat ls), len lg + int (length msg) - int (length (concat ls)))"
      "concat ls @ r = buffered lg @ msg" "LF \<notin> set r" "\<forall>x \<in> set ls. complete_line x"
    by (auto simp: b1)
  have lenr: "length (buffered lg) = n" using n by (simp add: buffered_def n_def[symmetric])
  from arg_cong[OF ls(2), of length] lenr
  have l: "len lg + int (length msg) - int (length (concat ls)) = int (length r)"
    using n(1) by simp
  define lg' where "lg' = \<lparr>buf = (if length (concat ls) \<noteq> 0 \<and> int (length r) > 0
                                then memmove_front b1 (length (concat ls)) (length r) else b1),
                         len = int (length r)\<rparr>"
  have c1: "\<not> int buf_size - len lg < int MAX_LOG_LEN" using a by (simp add: buf_size_def)
  have c2: "\<not> len lg < 0" using n(1) by simp
  have c3: "\<not> int (length msg) \<ge> int buf_size - len lg" using fit by simp
  have res: "log_vfmt lg priority msg = Inr (map (Pair priority) ls, lg')"
    unfolding log_vfmt_def Let_def b1_def[symmetric] using c1 c2 c3
    by (simp add: ls(1) l lg'_def)
  have b1': "b1 = concat ls @ r @ NUL # rest" using ls(2) by (simp add: b1)
  have bufd: "buffered lg' = r"
  proof (cases "concat ls = []")
    case True
    have b: "b1 = r @ NUL # rest" using b1' True by simp
    have "lg' = \<lparr>buf = b1, len = int (length r)\<rparr>"
      unfolding lg'_def using True by simp
    then show ?thesis by (simp add: buffered_def b)
  next
    case False
    then have nz: "length (concat ls) \<noteq> 0" by simp
    show ?thesis
    proof (cases "r = []")
      case True
      then show ?thesis by (simp add: lg'_def buffered_def)
    next
      case False
      then have "lg' = \<lparr>buf = memmove_front b1 (length (concat ls)) (length r), len = int (length r)\<rparr>"
        unfolding lg'_def using nz by simp
      then show ?thesis by (simp add: buffered_def memmove_front_def b1')
    qed
  qed
  have "length r \<le> buf_size" using arg_cong[OF b1', of length] lenb1 by simp
  moreover have "length (buf lg') = buf_size"
    using lenb1 arg_cong[OF b1', of length] by (auto simp: lg'_def memmove_front_def)
  moreover have "NUL \<notin> set r" using nn ls(2) by (metis Un_iff set_append)
  ultimately have "logger_ok lg'"
    using ls(3) bufd by (simp add: logger_ok_def) (simp add: lg'_def)
  then show ?thesis using res bufd ls(2,4) by auto
qed

lemma log_vfmt_too_large:
  assumes ok: "logger_ok lg"
      and a: "len lg \<le> int MAX_LOG_LEN"
      and big: "int (length msg) \<ge> int buf_size - len lg"
  shows "\<exists>lg'. log_vfmt lg priority msg = Inr ([(LOG_ERR, too_large_msg (int (length msg)))], lg')
     \<and> logger_ok lg' \<and> buffered lg' = buffered lg \<and> len lg' = len lg"
proof -
  define n where "n = nat (len lg)"
  have n: "len lg = int n" "n \<le> MAX_LOG_LEN" "length (buf lg) = buf_size" "buf_size - n \<le> length msg"
    using ok a big by (auto simp: logger_ok_def n_def)
  have pos: "0 < buf_size - n" using n(2) by (simp add: buf_size_def MAX_LOG_LEN_def)
  define b1 where "b1 = vsnprintf (buf lg) (nat (len lg)) (nat (int buf_size - len lg)) msg"
  have fs: "nat (int buf_size - len lg) = buf_size - n" using n(1) by simp
  have mn: "min (length msg) (buf_size - n - 1) = buf_size - n - 1" using n(4) by simp
  have b1: "b1 = take n (buf lg) @ take (buf_size - n - 1) msg @ [NUL] @ drop (n + (buf_size - n - 1) + 1) (buf lg)"
    unfolding b1_def fs n_def[symmetric] vsnprintf_def Let_def mn using pos by simp
  have lenb1: "length b1 = buf_size" using n pos by (simp add: b1 buf_size_def)
  have tk: "take n b1 = take n (buf lg)" using n by (simp add: b1 buf_size_def)
  have c1: "\<not> int buf_size - len lg < int MAX_LOG_LEN" using a by (simp add: buf_size_def)
  have c2: "\<not> len lg < 0" using n(1) by simp
  have res: "log_vfmt lg priority msg = Inr ([(LOG_ERR, too_large_msg (int (length msg)))], lg\<lparr>buf := b1\<rparr>)"
    unfolding log_vfmt_def Let_def b1_def[symmetric] using c1 c2 big by simp
  have "buffered (lg\<lparr>buf := b1\<rparr>) = buffered lg"
    by (simp add: buffered_def n_def[symmetric] tk)
  then show ?thesis using res ok lenb1 by (auto simp: logger_ok_def)
qed

lemma of_char_digit: "d < 10 \<Longrightarrow> of_char (char_of (48 + d :: nat)) = (48 + d :: nat)"
  by simp

lemma digit_neq_LF: "d < 10 \<Longrightarrow> LF \<noteq> char_of (48 + d :: nat)"
proof
  assume d: "d < 10" and e: "LF = char_of (48 + d :: nat)"
  from arg_cong[OF e, of "of_char :: char \<Rightarrow> nat"] d show False
    by (simp add: LF_def)
qed

lemma LF_notin_dec: "LF \<notin> set (dec n)"
proof (induction n rule: dec.induct)
  case (1 n)
  show ?case
  proof (cases "n < 10")
    case True
    then show ?thesis by (subst dec.simps) (simp add: digit_neq_LF)
  next
    case False
    have "n mod 10 < 10" by simp
    then show ?thesis using 1 False by (subst dec.simps) (simp add: digit_neq_LF)
  qed
qed

lemma complete_line_too_large: "complete_line (too_large_msg n)"
proof -
  have "LF \<notin> set ''Too large log message: ''" "LF \<notin> set '' bytes''"
    by (simp_all add: LF_def)
  then show ?thesis
    using LF_notin_dec[of "nat n"] by (simp add: complete_line_def too_large_msg_def butlast_append)
qed

lemma log_msg_in_range:
  assumes pr: "0 \<le> priority" "priority \<le> MAX_LOG_PRIORITY"
      and ok: "logger_ok (loggers (nat priority))" and msg: "NUL \<notin> set msg"
      and a: "len (loggers (nat priority)) \<le> int MAX_LOG_LEN"
  shows "\<exists>out lg'. log_msg loggers priority msg = Inr (out, loggers(nat priority := lg'))
           \<and> logger_ok lg' \<and> (\<forall>x \<in> set out. complete_line (snd x))
           \<and> (if int (length msg) < int buf_size - len (loggers (nat priority))
               then map fst out = replicate (length out) priority
                    \<and> concat (map snd out) @ buffered lg' = buffered (loggers (nat priority)) @ msg
               else out = [(LOG_ERR, too_large_msg (int (length msg)))]
                    \<and> buffered lg' = buffered (loggers (nat priority))
                    \<and> len lg' = len (loggers (nat priority)))"
proof (cases "int (length msg) < int buf_size - len (loggers (nat priority))")
  case True
  from log_vfmt_fits[OF ok msg a True, of priority]
  obtain ls lg' where r: "log_vfmt (loggers (nat priority)) priority msg = Inr (map (Pair priority) ls, lg')"
     "logger_ok lg'" "concat ls @ buffered lg' = buffered (loggers (nat priority)) @ msg"
     "\<forall>x \<in> set ls. complete_line x" by blast
  have "log_msg loggers priority msg = Inr (map (Pair priority) ls, loggers(nat priority := lg'))"
    using pr r(1) by (simp add: log_msg_def)
  moreover have "map fst (map (Pair priority) ls) = replicate (length (map (Pair priority) ls)) priority"
    by (simp add: comp_def map_replicate_const)
  moreover have "concat (map snd (map (Pair priority) ls)) = concat ls"
    by (simp add: comp_def)
  ultimately show ?thesis using True r(2,3,4)
    by (intro exI[of _ "map (Pair priority) ls"] exI[of _ lg']) (simp add: comp_def)
next
  case False
  then have big: "int (length msg) \<ge> int buf_size - len (loggers (nat priority))" by simp
  from log_vfmt_too_large[OF ok a big, of priority]
  obtain lg' where r: "log_vfmt (loggers (nat priority)) priority msg =
        Inr ([(LOG_ERR, too_large_msg (int (length msg)))], lg')"
     "logger_ok lg'" "buffered lg' = buffered (loggers (nat priority))"
     "len lg' = len (loggers (nat priority))" by blast
  have "log_msg loggers priority msg =
      Inr ([(LOG_ERR, too_large_msg (int (length msg)))], loggers(nat priority := lg'))"
    using pr r(1) by (simp add: log_msg_def)
  then show ?thesis using False r(2,3,4) complete_line_too_large
    by (intro exI[of _ "[(LOG_ERR, too_large_msg (int (length msg)))]"] exI[of _ lg']) simp
qed

lemma log_msg_assert:
  assumes pr: "0 \<le> priority" "priority \<le> MAX_LOG_PRIORITY"
      and a: "len (loggers (nat priority)) > int MAX_LOG_LEN"
  shows "log_msg loggers priority msg = Inl AssertFail"
  using assms by (simp add: log_msg_def log_vfmt_def buf_size_def Let_def)

lemma logger_ok_logger0: "logger_ok logger0"
  by (simp add: logger_ok_def logger0_def buffered_def)

text \<open>
  Claim C10 as stated holds of every \<^verbatim>\<open>_log\<close> call; it fails for a message with a 0
  byte and for a logger that holds more than \<^verbatim>\<open>MAX_LOG_LEN\<close> bytes. The call
  \<^verbatim>\<open>_log(5, "a%cb\n", 0)\<close> on fresh loggers formats the four bytes \<^verbatim>\<open>a\<close>, 0,
  \<^verbatim>\<open>b\<close>, line feed; \<^verbatim>\<open>strchr\<close> stops at the 0 byte, so nothing is passed to
  \<^verbatim>\<open>do_log\<close> and the four bytes stay buffered, the line feed among them: the buffer
  does not hold "the trailing text after the last newline (which contains no
  newline)". And a logger in order that holds more than \<^verbatim>\<open>MAX_LOG_LEN\<close> bytes, which
  one message of 3000 bytes without line feed leaves, stops the next call at the
  \<^verbatim>\<open>assert\<close>.
\<close>

theorem log_msg_nul_keeps_line_feed:
  "logger_ok logger0
   \<and> (\<exists>lg'. log_msg (\<lambda>_. logger0) 5 ([CHR ''a'', NUL, CHR ''b'', LF]) = Inr ([], (\<lambda>_. logger0)(5 := lg'))
         \<and> len lg' = 4 \<and> buffered lg' = [CHR ''a'', NUL, CHR ''b'', LF]
         \<and> LF \<in> set (buffered lg'))
   \<and> (\<exists>lg1. log_msg (\<lambda>_. logger0) 5 (replicate 3000 (CHR ''x'')) = Inr ([], (\<lambda>_. logger0)(5 := lg1))
         \<and> logger_ok lg1 \<and> len lg1 = 3000
         \<and> log_msg ((\<lambda>_. logger0)(5 := lg1)) 5 ''a'' = Inl AssertFail)"
proof -
  define b2 where "b2 = replicate 3000 (CHR ''x'') @ [NUL] @ replicate 1095 NUL"
  have v2: "vsnprintf (buf logger0) 0 4096 (replicate 3000 (CHR ''x'')) = b2"
    by (simp add: vsnprintf_def logger0_def buf_size_def MAX_LOG_LEN_def b2_def)
  have f: "find_lf (replicate n (CHR ''x'') @ NUL # r) = None" for n r
    by (induction n) (simp_all add: NUL_def LF_def)
  have "find_lf b2 = None" unfolding b2_def using f[of 3000 "replicate 1095 NUL"] by simp
  then have "strchr_lf b2 0 = None" by (simp add: strchr_lf_def)
  then have ll2: "log_lines b2 0 3000 = ([], 0, 3000)" by (subst log_lines.simps) simp
  have "log_vfmt logger0 5 (replicate 3000 (CHR ''x'')) = Inr ([], \<lparr>buf = b2, len = 3000\<rparr>)"
    using v2 ll2 by (simp add: log_vfmt_def Let_def logger0_def buf_size_def MAX_LOG_LEN_def)
  then have 4: "log_msg (\<lambda>_. logger0) 5 (replicate 3000 (CHR ''x''))
       = Inr ([], (\<lambda>_. logger0)(5 := \<lparr>buf = b2, len = 3000\<rparr>))"
    by (simp add: log_msg_def MAX_LOG_PRIORITY_def)
  have 5: "logger_ok \<lparr>buf = b2, len = 3000\<rparr>"
    by (simp add: logger_ok_def buffered_def b2_def buf_size_def MAX_LOG_LEN_def NUL_def LF_def)
  have 6: "log_msg ((\<lambda>_. logger0)(5 := \<lparr>buf = b2, len = 3000\<rparr>)) 5 ''a'' = Inl AssertFail"
    by (simp add: log_msg_def log_vfmt_def Let_def MAX_LOG_PRIORITY_def buf_size_def MAX_LOG_LEN_def)
  define b1 where "b1 = [CHR ''a'', NUL, CHR ''b'', LF, NUL] @ replicate 4091 NUL"
  have v: "vsnprintf (buf logger0) 0 4096 [CHR ''a'', NUL, CHR ''b'', LF] = b1"
    by (simp add: vsnprintf_def logger0_def buf_size_def MAX_LOG_LEN_def b1_def)
  have "find_lf b1 = None" by (simp add: b1_def NUL_def LF_def)
  then have "strchr_lf b1 0 = None" by (simp add: strchr_lf_def)
  then have ll: "log_lines b1 0 4 = ([], 0, 4)" by (subst log_lines.simps) simp
  have "log_vfmt logger0 5 [CHR ''a'', NUL, CHR ''b'', LF] = Inr ([], \<lparr>buf = b1, len = 4\<rparr>)"
    using v ll by (simp add: log_vfmt_def Let_def logger0_def buf_size_def MAX_LOG_LEN_def)
  then have 1: "log_msg (\<lambda>_. logger0) 5 ([CHR ''a'', NUL, CHR ''b'', LF])
       = Inr ([], (\<lambda>_. logger0)(5 := \<lparr>buf = b1, len = 4\<rparr>))"
    by (simp add: log_msg_def MAX_LOG_PRIORITY_def)
  have 2: "buffered \<lparr>buf = b1, len = 4\<rparr> = [CHR ''a'', NUL, CHR ''b'', LF]"
    by (simp add: buffered_def b1_def)
  have A: "\<exists>lg'. log_msg (\<lambda>_. logger0) 5 ([CHR ''a'', NUL, CHR ''b'', LF]) = Inr ([], (\<lambda>_. logger0)(5 := lg'))
         \<and> len lg' = 4 \<and> buffered lg' = [CHR ''a'', NUL, CHR ''b'', LF]
         \<and> LF \<in> set (buffered lg')"
    using 1 2 by (intro exI[of _ "\<lparr>buf = b1, len = 4\<rparr>"]) simp
  have B: "\<exists>lg1. log_msg (\<lambda>_. logger0) 5 (replicate 3000 (CHR ''x'')) = Inr ([], (\<lambda>_. logger0)(5 := lg1))
         \<and> logger_ok lg1 \<and> len lg1 = 3000
         \<and> log_msg ((\<lambda>_. logger0)(5 := lg1)) 5 ''a'' = Inl AssertFail"
    using 4 5 6 by (intro exI[of _ "\<lparr>buf = b2, len = 3000\<rparr>"]) simp
  show ?thesis using logger_ok_logger0 A B by (intro conjI)
qed

text \<open>
  Claim C10, amended. The logger emits complete lines only, for messages without a 0
  byte and loggers that hold at most \<^verbatim>\<open>MAX_LOG_LEN\<close> bytes. A priority outside
  \<open>[0, MAX_LOG_PRIORITY]\<close> makes \<^verbatim>\<open>_log\<close> a no-op. For a priority inside it, whose
  logger is in order (the buffered text, which is the first \<^verbatim>\<open>len\<close> bytes of the
  buffer, holds no line feed and no 0 byte) and holds at most \<^verbatim>\<open>MAX_LOG_LEN\<close>
  bytes, so that it passes the \<^verbatim>\<open>assert\<close>, and a formatted message without a 0
  byte, the call returns; every
  chunk passed to \<^verbatim>\<open>do_log\<close> is a line that ends with its only line feed; the
  logger is in order again, so the buffered text holds no line feed. When the message
  fits, the chunks followed by the text buffered afterwards are the text buffered
  before followed by the message: the buffer retains exactly the text after the last
  line feed. When the message is too large for the free space, the one chunk is the
  complaint, and the buffered text and the length are as before. The loggers of the
  other priorities are never touched.
\<close>

theorem log_msg_complete_lines:
  "(priority < 0 \<or> priority > MAX_LOG_PRIORITY \<longrightarrow> log_msg loggers priority msg = Inr ([], loggers))
   \<and> (0 \<le> priority \<and> priority \<le> MAX_LOG_PRIORITY \<and> logger_ok (loggers (nat priority))
        \<and> NUL \<notin> set msg \<and> len (loggers (nat priority)) \<le> int MAX_LOG_LEN \<longrightarrow>
       (\<exists>out lg'. log_msg loggers priority msg = Inr (out, loggers(nat priority := lg'))
           \<and> logger_ok lg' \<and> (\<forall>x \<in> set out. complete_line (snd x))
           \<and> (if int (length msg) < int buf_size - len (loggers (nat priority))
               then map fst out = replicate (length out) priority
                    \<and> concat (map snd out) @ buffered lg' = buffered (loggers (nat priority)) @ msg
               else out = [(LOG_ERR, too_large_msg (int (length msg)))]
                    \<and> buffered lg' = buffered (loggers (nat priority))
                    \<and> len lg' = len (loggers (nat priority)))))"
proof (intro conjI impI)
  assume "priority < 0 \<or> priority > MAX_LOG_PRIORITY"
  then show "log_msg loggers priority msg = Inr ([], loggers)"
    by (auto simp: log_msg_def)
next
  assume h: "0 \<le> priority \<and> priority \<le> MAX_LOG_PRIORITY \<and> logger_ok (loggers (nat priority))
        \<and> NUL \<notin> set msg \<and> len (loggers (nat priority)) \<le> int MAX_LOG_LEN"
  then show "\<exists>out lg'. log_msg loggers priority msg = Inr (out, loggers(nat priority := lg'))
           \<and> logger_ok lg' \<and> (\<forall>x \<in> set out. complete_line (snd x))
           \<and> (if int (length msg) < int buf_size - len (loggers (nat priority))
               then map fst out = replicate (length out) priority
                    \<and> concat (map snd out) @ buffered lg' = buffered (loggers (nat priority)) @ msg
               else out = [(LOG_ERR, too_large_msg (int (length msg)))]
                    \<and> buffered lg' = buffered (loggers (nat priority))
                    \<and> len lg' = len (loggers (nat priority)))"
    by (intro log_msg_in_range) simp_all
qed

text \<open>
  The witness: the message \<^verbatim>\<open>"ab\ncd"\<close> at priority 5 on fresh loggers, and the
  same message at priority 9, which is out of range.
\<close>

theorem log_msg_complete_lines_witness:
  "logger_ok logger0 \<and> NUL \<notin> set (''ab'' @ [LF] @ ''cd'')
   \<and> (\<exists>out lg'. log_msg (\<lambda>_. logger0) 5 (''ab'' @ [LF] @ ''cd'') = Inr (out, (\<lambda>_. logger0)(5 := lg'))
         \<and> logger_ok lg'
         \<and> concat (map snd out) @ buffered lg' = ''ab'' @ [LF] @ ''cd'')
   \<and> log_msg (\<lambda>_. logger0) 9 (''ab'' @ [LF] @ ''cd'') = Inr ([], \<lambda>_. logger0)"
proof -
  have n: "NUL \<notin> set (''ab'' @ [LF] @ ''cd'')" by (simp add: NUL_def LF_def)
  have b: "buffered logger0 = []" by (simp add: buffered_def logger0_def)
  have l: "len logger0 = 0" by (simp add: logger0_def)
  from log_msg_complete_lines[of 5 "\<lambda>_. logger0" "''ab'' @ [LF] @ ''cd''"]
  have "\<exists>out lg'. log_msg (\<lambda>_. logger0) 5 (''ab'' @ [LF] @ ''cd'') = Inr (out, (\<lambda>_. logger0)(5 := lg'))
         \<and> logger_ok lg'
         \<and> concat (map snd out) @ buffered lg' = ''ab'' @ [LF] @ ''cd''"
    using logger_ok_logger0 n
    by (simp add: MAX_LOG_PRIORITY_def b l buf_size_def MAX_LOG_LEN_def) blast
  moreover from log_msg_complete_lines[of 9 "\<lambda>_. logger0" "''ab'' @ [LF] @ ''cd''"]
  have "log_msg (\<lambda>_. logger0) 9 (''ab'' @ [LF] @ ''cd'') = Inr ([], \<lambda>_. logger0)"
    by (simp add: MAX_LOG_PRIORITY_def)
  ultimately show ?thesis using logger_ok_logger0 n by simp
qed

end
